theory Spec2Isabelle
  imports Main "HOL-Library.Word"
begin

unbundle bit_operations_syntax

section \<open>The xv6 file system: a shallow embedding of fs.c, file.c and sysfile.c\<close>

text \<open>
  The model follows the C sources function by function. Kernel memory is an explicit
  state record that every operation takes and returns. A call either returns a value
  and a new state, or fails: \<open>Panic\<close> is the kernel's \<open>panic()\<close>, \<open>Blocked\<close> is a
  thread that sleeps on an inode sleep-lock that is already held (the model has one
  thread, so nobody will release it), \<open>Diverges\<close> is a loop that never ends. Pointers into the two kernel tables (the inode
  cache and the open-file table) are indices; a pointer that may be null is an
  \<open>option\<close>. Machine integers are words: \<open>uint\<close> is compared unsigned, a C \<open>int\<close> or
  \<open>short\<close> is read with \<open>sint\<close> wherever the source compares it signed.
\<close>

subsection \<open>Machine types and constants\<close>

type_synonym byte = "8 word"
type_synonym ushort = "16 word"
type_synonym short = "16 word"
type_synonym uint = "32 word"
type_synonym cint = "32 word"

text \<open>A disk block or an array in memory: a total function from the byte index.\<close>

type_synonym block = "nat \<Rightarrow> byte"

text \<open>
  Modelled from the spec: the headers param.h, fs.h, stat.h, file.h and fcntl.h are not
  among the sources. \<open>BSIZE\<close> is 512 (spec section 6, and the literal in filewrite);
  inode types are numbered in the order the spec lists them (0 is free); the
  indirect block is an array of 32-bit block numbers filling one block. The spec
  leaves the values of \<open>NDIRECT\<close>, \<open>DIRSIZ\<close>, \<open>MAXOPBLOCKS\<close>, \<open>NDEV\<close>, \<open>NINODE\<close>,
  \<open>NFILE\<close>, \<open>NOFILE\<close>, the root inode and the open flags open: they are given the
  values of the xv6 distribution.
\<close>

definition BSIZE :: nat where "BSIZE = 512"
definition NDIRECT :: nat where "NDIRECT = 12"
definition NINDIRECT :: nat where "NINDIRECT = BSIZE div 4"
definition MAXFILE :: nat where "MAXFILE = NDIRECT + NINDIRECT"
definition BPB :: nat where "BPB = BSIZE * 8"
definition DIRSIZ :: nat where "DIRSIZ = 14"
definition MAXOPBLOCKS :: int where "MAXOPBLOCKS = 10"
definition NDEV :: int where "NDEV = 10"
definition NINODE :: nat where "NINODE = 50"
definition NFILE :: nat where "NFILE = 100"
definition NOFILE :: nat where "NOFILE = 16"
definition ROOTDEV :: uint where "ROOTDEV = 1"
definition ROOTINO :: uint where "ROOTINO = 1"
definition T_DIR :: short where "T_DIR = 1"
definition T_FILE :: short where "T_FILE = 2"
definition T_DEV :: short where "T_DEV = 3"
definition O_RDONLY :: cint where "O_RDONLY = 0x000"
definition O_WRONLY :: cint where "O_WRONLY = 0x001"
definition O_RDWR :: cint where "O_RDWR = 0x002"
definition O_CREATE :: cint where "O_CREATE = 0x200"

text \<open>\<open>sizeof(struct dinode)\<close>: four shorts, the size and \<open>NDIRECT + 1\<close> addresses.\<close>

definition sizeof_dinode :: nat where "sizeof_dinode = 4 * 2 + 4 + 4 * (NDIRECT + 1)"
definition IPB :: nat where "IPB = BSIZE div sizeof_dinode"

text \<open>\<open>sizeof(struct dirent)\<close>: the 16-bit inumber and \<open>DIRSIZ\<close> bytes of name.\<close>

definition sizeof_dirent :: nat where "sizeof_dirent = 2 + DIRSIZ"

subsection \<open>Kernel state\<close>

datatype failure = Panic string | Blocked | Diverges

record superblock =
  sb_size :: uint
  sb_nblocks :: uint
  sb_ninodes :: uint
  sb_nlog :: uint
  sb_logstart :: uint
  sb_inodestart :: uint
  sb_bmapstart :: uint

text \<open>The on-disk inode (\<open>struct dinode\<close>); field \<open>x\<close> is \<open>d_x\<close>.\<close>

record dinode =
  d_type :: short
  d_major :: short
  d_minor :: short
  d_nlink :: short
  d_size :: uint
  d_addrs :: "nat \<Rightarrow> uint"

text \<open>
  The in-memory inode (\<open>struct inode\<close>); field \<open>x\<close> is \<open>i_x\<close>. \<open>i_lock\<close> is the
  sleep-lock's \<open>locked\<close> flag.
\<close>

record inode =
  i_dev :: uint
  i_inum :: uint
  i_ref :: cint
  i_lock :: bool
  i_valid :: cint
  i_type :: short
  i_major :: short
  i_minor :: short
  i_nlink :: short
  i_size :: uint
  i_addrs :: "nat \<Rightarrow> uint"

datatype fdtype = FD_NONE | FD_PIPE | FD_INODE

text \<open>The open-file handle (\<open>struct file\<close>, here \<open>openfile\<close>); field \<open>x\<close> is \<open>f_x\<close>.\<close>

record openfile =
  f_type :: fdtype
  f_ref :: cint
  f_readable :: byte
  f_writable :: byte
  f_pipe :: nat
  f_ip :: nat
  f_off :: uint

text \<open>One slot of the device switch: the read and write functions, either may be null.\<close>

record devsw_entry =
  dread :: "(cint \<Rightarrow> cint \<times> byte list) option"
  dwrite :: "((nat \<Rightarrow> byte) \<Rightarrow> cint \<Rightarrow> cint) option"

datatype event = BeginOp | EndOp | LogWrite uint uint

text \<open>
  Modelled from the spec: the block cache (bio.c), the log (log.c), the pipes (pipe.c),
  the device drivers and the process table (proc.c) are not among the sources.
  \<^item> \<open>disk\<close> gives the contents of every block as the block cache presents them:
    \<open>bread\<close> returns the current contents, \<open>log_write\<close> stores a buffer's contents as
    part of the open transaction, \<open>brelse\<close> has no effect on the contents. The
    locks on buffers are not modelled.
  \<^item> \<open>oplog\<close> records the calls to the log in order: \<open>begin_op\<close>, \<open>end_op\<close> and each
    \<open>log_write\<close> with its device and block number.
  \<^item> \<open>devsw\<close> is the device switch; a device's read returns a count and the bytes it
    stored, its write returns a count. \<open>piperead\<close> and \<open>pipewrite\<close> do the same for the
    pipe a handle points to.
  \<^item> \<open>cwd\<close> and \<open>ofile\<close> are the current process's working directory and descriptor
    table.
\<close>

record kstate =
  sb :: superblock
  disk :: "uint \<Rightarrow> uint \<Rightarrow> block"
  oplog :: "event list"
  icache :: "nat \<Rightarrow> inode"
  ftable :: "nat \<Rightarrow> openfile"
  devsw :: "nat \<Rightarrow> devsw_entry"
  piperead :: "nat \<Rightarrow> cint \<Rightarrow> cint \<times> byte list"
  pipewrite :: "nat \<Rightarrow> (nat \<Rightarrow> byte) \<Rightarrow> cint \<Rightarrow> cint"
  cwd :: nat
  ofile :: "nat \<Rightarrow> nat option"

type_synonym 'a result = "failure + 'a \<times> kstate"

text \<open>Sequencing: the second call runs in the state the first one returned.\<close>

definition bindk :: "'a result \<Rightarrow> ('a \<Rightarrow> kstate \<Rightarrow> 'b result) \<Rightarrow> 'b result" where
  "bindk m f = (case m of Inl e \<Rightarrow> Inl e | Inr (x, s) \<Rightarrow> f x s)"

definition panic :: "string \<Rightarrow> 'a result" where
  "panic msg = Inl (Panic msg)"

text \<open>Assignment to fields of the inode \<open>ip\<close> points to, and of the handle \<open>f\<close> points to.\<close>

definition upd_inode :: "nat \<Rightarrow> (inode \<Rightarrow> inode) \<Rightarrow> kstate \<Rightarrow> kstate" where
  "upd_inode ip g s = s\<lparr>icache := (icache s)(ip := g (icache s ip))\<rparr>"

definition upd_file :: "nat \<Rightarrow> (openfile \<Rightarrow> openfile) \<Rightarrow> kstate \<Rightarrow> kstate" where
  "upd_file f g s = s\<lparr>ftable := (ftable s)(f := g (ftable s f))\<rparr>"

subsection \<open>Block cache and log, as the file system uses them\<close>

definition bread :: "uint \<Rightarrow> uint \<Rightarrow> kstate \<Rightarrow> block" where
  "bread d b s = disk s d b"

definition log_write :: "uint \<Rightarrow> uint \<Rightarrow> block \<Rightarrow> kstate \<Rightarrow> kstate" where
  "log_write d b data s =
     s\<lparr>disk := (disk s)(d := (disk s d)(b := data)), oplog := oplog s @ [LogWrite d b]\<rparr>"

definition begin_op :: "kstate \<Rightarrow> kstate" where
  "begin_op s = s\<lparr>oplog := oplog s @ [BeginOp]\<rparr>"

definition end_op :: "kstate \<Rightarrow> kstate" where
  "end_op s = s\<lparr>oplog := oplog s @ [EndOp]\<rparr>"

text \<open>Little-endian fields of a block, as the x86 reads and writes them.\<close>

definition get16 :: "block \<Rightarrow> nat \<Rightarrow> 16 word" where
  "get16 b k = ucast (b k) OR push_bit 8 (ucast (b (k + 1)))"

definition put16 :: "block \<Rightarrow> nat \<Rightarrow> 16 word \<Rightarrow> block" where
  "put16 b k w = b(k := ucast w, k + 1 := ucast (drop_bit 8 w))"

definition get32 :: "block \<Rightarrow> nat \<Rightarrow> 32 word" where
  "get32 b k = ucast (b k) OR push_bit 8 (ucast (b (k + 1)))
     OR push_bit 16 (ucast (b (k + 2))) OR push_bit 24 (ucast (b (k + 3)))"

definition put32 :: "block \<Rightarrow> nat \<Rightarrow> 32 word \<Rightarrow> block" where
  "put32 b k w = b(k := ucast w, k + 1 := ucast (drop_bit 8 w),
     k + 2 := ucast (drop_bit 16 w), k + 3 := ucast (drop_bit 24 w))"

subsection \<open>Memory and strings\<close>

text \<open>
  Modelled from the spec: string.c is not among the sources; \<open>memset\<close>, \<open>memmove\<close>,
  \<open>strncmp\<close> and \<open>strncpy\<close> are the C library's. \<open>memset b k c n\<close> stores \<open>c\<close> in the
  \<open>n\<close> bytes of \<open>b\<close> from index \<open>k\<close>; \<open>memmove b k src n\<close> copies the first \<open>n\<close> bytes
  of \<open>src\<close> there. \<open>strncmp\<close> compares at most \<open>n\<close> bytes and stops at a NUL;
  \<open>strncpy\<close> gives the \<open>n\<close> bytes it stores: the string up to its NUL, padded with
  NULs.
\<close>

definition memset :: "block \<Rightarrow> nat \<Rightarrow> byte \<Rightarrow> nat \<Rightarrow> block" where
  "memset b k c n = (\<lambda>j. if k \<le> j \<and> j < k + n then c else b j)"

definition memmove :: "block \<Rightarrow> nat \<Rightarrow> block \<Rightarrow> nat \<Rightarrow> block" where
  "memmove b k src n = (\<lambda>j. if k \<le> j \<and> j < k + n then src (j - k) else b j)"

fun strncmp :: "block \<Rightarrow> block \<Rightarrow> nat \<Rightarrow> int" where
  "strncmp p q 0 = 0"
| "strncmp p q (Suc n) =
     (if p 0 \<noteq> 0 \<and> p 0 = q 0 then strncmp (\<lambda>k. p (Suc k)) (\<lambda>k. q (Suc k)) n
      else uint (p 0) - uint (q 0))"

fun strncpy :: "block \<Rightarrow> nat \<Rightarrow> byte list" where
  "strncpy t 0 = []"
| "strncpy t (Suc n) =
     (if t 0 = 0 then replicate (Suc n) 0 else t 0 # strncpy (\<lambda>k. t (Suc k)) n)"

text \<open>
  A C string given by its bytes before the terminating NUL: \<open>deref mem p\<close> is \<open>*p\<close> for a
  pointer \<open>p\<close> into it, \<open>mem_of\<close> the memory that holds it.
\<close>

definition deref :: "byte list \<Rightarrow> nat \<Rightarrow> byte" where
  "deref mem p = (if p < length mem then mem ! p else 0)"

definition mem_of :: "byte list \<Rightarrow> block" where
  "mem_of mem = (\<lambda>k. deref mem k)"

definition slash :: byte where "slash = 47"

subsection \<open>Blocks: the allocator (fs.c)\<close>

text \<open>\<open>BBLOCK(b, sb)\<close>: the bitmap block holding the bit of block \<open>b\<close>.\<close>

definition BBLOCK :: "uint \<Rightarrow> superblock \<Rightarrow> uint" where
  "BBLOCK b sblk = b div word_of_nat BPB + sb_bmapstart sblk"

text \<open>\<open>IBLOCK(i, sb)\<close>: the block holding inode \<open>i\<close>.\<close>

definition IBLOCK :: "uint \<Rightarrow> superblock \<Rightarrow> uint" where
  "IBLOCK i sblk = i div word_of_nat IPB + sb_inodestart sblk"

definition bzero :: "uint \<Rightarrow> uint \<Rightarrow> kstate \<Rightarrow> kstate" where
  "bzero d bno s =
     (let bp = bread d bno s
      in log_write d bno (memset bp 0 0 BSIZE) s)"

text \<open>
  The inner loop of balloc: the first \<open>bi\<close> from the given one on, below \<open>BPB\<close> and with
  \<open>b + bi\<close> below the disk size, whose bit is clear in the bitmap block. The counters
  \<open>b\<close> and \<open>bi\<close> are C ints; they are natural numbers here, which is exact while the
  disk has fewer than \<open>2^31\<close> blocks.
\<close>

function balloc_bits :: "block \<Rightarrow> nat \<Rightarrow> nat \<Rightarrow> nat \<Rightarrow> nat option" where
  "balloc_bits bp sz b bi =
     (if bi < BPB \<and> b + bi < sz then
        (if bp (bi div 8) AND push_bit (bi mod 8) 1 = 0 then Some bi
         else balloc_bits bp sz b (bi + 1))
      else None)"
  by pat_completeness auto
termination
  by (relation "measure (\<lambda>(bp, sz, b, bi). BPB - bi)") auto

declare balloc_bits.simps [simp del]

function balloc_from :: "uint \<Rightarrow> nat \<Rightarrow> kstate \<Rightarrow> uint result" where
  "balloc_from d b s =
     (if b < unat (sb_size (sb s)) then
        (let bno = BBLOCK (word_of_nat b) (sb s);
             bp = bread d bno s
         in case balloc_bits bp (unat (sb_size (sb s))) b 0 of
              Some bi \<Rightarrow>
                (let s = log_write d bno
                           (bp(bi div 8 := bp (bi div 8) OR push_bit (bi mod 8) 1)) s;
                     s = bzero d (word_of_nat (b + bi)) s
                 in Inr (word_of_nat (b + bi), s))
            | None \<Rightarrow> balloc_from d (b + BPB) s)
      else panic ''balloc: out of blocks'')"
  by pat_completeness auto
termination
  by (relation "measure (\<lambda>(d, b, s). unat (sb_size (sb s)) - b)") (auto simp: BPB_def BSIZE_def)

declare balloc_from.simps [simp del]

definition balloc :: "uint \<Rightarrow> kstate \<Rightarrow> uint result" where
  "balloc d s = balloc_from d 0 s"

definition bfree :: "uint \<Rightarrow> uint \<Rightarrow> kstate \<Rightarrow> unit result" where
  "bfree d b s =
     (let bno = BBLOCK b (sb s);
          bp = bread d bno s;
          bi = unat b mod BPB;
          m = push_bit (bi mod 8) 1
      in if bp (bi div 8) AND m = 0 then panic ''freeing free block''
         else Inr ((), log_write d bno (bp(bi div 8 := bp (bi div 8) AND NOT m)) s))"

subsection \<open>Inodes (fs.c)\<close>

text \<open>The \<open>k\<close>-th on-disk inode of an inode block.\<close>

definition get_dinode :: "block \<Rightarrow> nat \<Rightarrow> dinode" where
  "get_dinode bp k =
     (let dip = k * sizeof_dinode
      in \<lparr>d_type = get16 bp dip, d_major = get16 bp (dip + 2), d_minor = get16 bp (dip + 4),
          d_nlink = get16 bp (dip + 6), d_size = get32 bp (dip + 8),
          d_addrs = (\<lambda>j. get32 bp (dip + 12 + 4 * j))\<rparr>)"

definition put_addrs :: "block \<Rightarrow> nat \<Rightarrow> (nat \<Rightarrow> uint) \<Rightarrow> block" where
  "put_addrs bp dip a = fold (\<lambda>j b. put32 b (dip + 12 + 4 * j) (a j)) [0..<NDIRECT + 1] bp"

definition iupdate :: "nat \<Rightarrow> kstate \<Rightarrow> kstate" where
  "iupdate ip s =
     (let i = icache s ip;
          bno = IBLOCK (i_inum i) (sb s);
          bp = bread (i_dev i) bno s;
          dip = (unat (i_inum i) mod IPB) * sizeof_dinode;
          bp = put16 bp dip (i_type i);
          bp = put16 bp (dip + 2) (i_major i);
          bp = put16 bp (dip + 4) (i_minor i);
          bp = put16 bp (dip + 6) (i_nlink i);
          bp = put32 bp (dip + 8) (i_size i);
          bp = put_addrs bp dip (i_addrs i)
      in log_write (i_dev i) bno bp s)"

text \<open>
  The scan of iget over the cache from slot \<open>k\<close>: \<open>Inl\<close> the slot that holds the inode,
  or \<open>Inr\<close> the first empty slot seen, if any.
\<close>

function iget_scan :: "uint \<Rightarrow> uint \<Rightarrow> nat \<Rightarrow> nat option \<Rightarrow> kstate \<Rightarrow> nat + nat option" where
  "iget_scan d inum k empt s =
     (if k < NINODE then
        (if 0 <s i_ref (icache s k) \<and> i_dev (icache s k) = d \<and> i_inum (icache s k) = inum
         then Inl k
         else iget_scan d inum (k + 1)
                (if empt = None \<and> i_ref (icache s k) = 0 then Some k else empt) s)
      else Inr empt)"
  by pat_completeness auto
termination
  by (relation "measure (\<lambda>(d, inum, k, empt, s). NINODE - k)") auto

declare iget_scan.simps [simp del]

definition iget :: "uint \<Rightarrow> uint \<Rightarrow> kstate \<Rightarrow> nat result" where
  "iget d inum s =
     (case iget_scan d inum 0 None s of
        Inl ip \<Rightarrow> Inr (ip, upd_inode ip (\<lambda>i. i\<lparr>i_ref := i_ref i + 1\<rparr>) s)
      | Inr None \<Rightarrow> panic ''iget: no inodes''
      | Inr (Some ip) \<Rightarrow>
          Inr (ip, upd_inode ip (\<lambda>i. i\<lparr>i_dev := d, i_inum := inum, i_ref := 1, i_valid := 0\<rparr>) s))"

definition idup :: "nat \<Rightarrow> kstate \<Rightarrow> nat result" where
  "idup ip s = Inr (ip, upd_inode ip (\<lambda>i. i\<lparr>i_ref := i_ref i + 1\<rparr>) s)"

text \<open>
  Modelled from the spec: sleeplock.c is not among the sources. \<open>acquiresleep\<close> takes a
  free lock and waits for a held one, \<open>releasesleep\<close> frees it, \<open>holdingsleep\<close> tells
  whether it is held.
\<close>

definition acquiresleep :: "nat \<Rightarrow> kstate \<Rightarrow> unit result" where
  "acquiresleep ip s =
     (if i_lock (icache s ip) then Inl Blocked
      else Inr ((), upd_inode ip (\<lambda>i. i\<lparr>i_lock := True\<rparr>) s))"

definition releasesleep :: "nat \<Rightarrow> kstate \<Rightarrow> kstate" where
  "releasesleep ip s = upd_inode ip (\<lambda>i. i\<lparr>i_lock := False\<rparr>) s"

definition holdingsleep :: "nat \<Rightarrow> kstate \<Rightarrow> bool" where
  "holdingsleep ip s = i_lock (icache s ip)"

definition ilock :: "nat \<Rightarrow> kstate \<Rightarrow> unit result" where
  "ilock ip s =
     (if sint (i_ref (icache s ip)) < 1 then panic ''ilock''
      else bindk (acquiresleep ip s) (\<lambda>_ s.
        if i_valid (icache s ip) = 0 then
          (let i = icache s ip;
               bp = bread (i_dev i) (IBLOCK (i_inum i) (sb s)) s;
               dip = get_dinode bp (unat (i_inum i) mod IPB);
               s = upd_inode ip (\<lambda>i. i\<lparr>i_type := d_type dip, i_major := d_major dip,
                      i_minor := d_minor dip, i_nlink := d_nlink dip, i_size := d_size dip,
                      i_addrs := (\<lambda>j. if j < NDIRECT + 1 then d_addrs dip j else i_addrs i j),
                      i_valid := 1\<rparr>) s
           in if i_type (icache s ip) = 0 then panic ''ilock: no type'' else Inr ((), s))
        else Inr ((), s)))"

definition iunlock :: "nat \<Rightarrow> kstate \<Rightarrow> unit result" where
  "iunlock ip s =
     (if \<not> holdingsleep ip s \<or> sint (i_ref (icache s ip)) < 1 then panic ''iunlock''
      else Inr ((), releasesleep ip s))"

text \<open>The first loop of itrunc, over the direct blocks \<open>js\<close>.\<close>

fun itrunc_direct :: "nat \<Rightarrow> nat list \<Rightarrow> kstate \<Rightarrow> unit result" where
  "itrunc_direct ip [] s = Inr ((), s)"
| "itrunc_direct ip (j # js) s =
     (if i_addrs (icache s ip) j \<noteq> 0 then
        bindk (bfree (i_dev (icache s ip)) (i_addrs (icache s ip) j) s) (\<lambda>_ s.
          itrunc_direct ip js (upd_inode ip (\<lambda>i. i\<lparr>i_addrs := (i_addrs i)(j := 0)\<rparr>) s))
      else itrunc_direct ip js s)"

text \<open>The second loop of itrunc, over the entries \<open>js\<close> of the indirect block \<open>bp\<close>.\<close>

fun itrunc_indirect :: "uint \<Rightarrow> block \<Rightarrow> nat list \<Rightarrow> kstate \<Rightarrow> unit result" where
  "itrunc_indirect d bp [] s = Inr ((), s)"
| "itrunc_indirect d bp (j # js) s =
     (if get32 bp (4 * j) \<noteq> 0 then
        bindk (bfree d (get32 bp (4 * j)) s) (\<lambda>_ s. itrunc_indirect d bp js s)
      else itrunc_indirect d bp js s)"

definition itrunc :: "nat \<Rightarrow> kstate \<Rightarrow> unit result" where
  "itrunc ip s =
     bindk (itrunc_direct ip [0..<NDIRECT] s) (\<lambda>_ s.
     bindk (if i_addrs (icache s ip) NDIRECT \<noteq> 0 then
              (let d = i_dev (icache s ip);
                   bp = bread d (i_addrs (icache s ip) NDIRECT) s
               in bindk (itrunc_indirect d bp [0..<NINDIRECT] s) (\<lambda>_ s.
                  bindk (bfree d (i_addrs (icache s ip) NDIRECT) s) (\<lambda>_ s.
                    Inr ((), upd_inode ip (\<lambda>i. i\<lparr>i_addrs := (i_addrs i)(NDIRECT := 0)\<rparr>) s))))
            else Inr ((), s)) (\<lambda>_ s.
       Inr ((), iupdate ip (upd_inode ip (\<lambda>i. i\<lparr>i_size := 0\<rparr>) s))))"

definition iput :: "nat \<Rightarrow> kstate \<Rightarrow> unit result" where
  "iput ip s =
     bindk (acquiresleep ip s) (\<lambda>_ s.
     bindk (if i_valid (icache s ip) \<noteq> 0 \<and> i_nlink (icache s ip) = 0 then
              (let r = i_ref (icache s ip)
               in if r = 1 then
                    bindk (itrunc ip s) (\<lambda>_ s.
                      (let s = upd_inode ip (\<lambda>i. i\<lparr>i_type := 0\<rparr>) s;
                           s = iupdate ip s;
                           s = upd_inode ip (\<lambda>i. i\<lparr>i_valid := 0\<rparr>) s
                       in Inr ((), s)))
                  else Inr ((), s))
            else Inr ((), s)) (\<lambda>_ s.
       (let s = releasesleep ip s
        in Inr ((), upd_inode ip (\<lambda>i. i\<lparr>i_ref := i_ref i - 1\<rparr>) s))))"

definition iunlockput :: "nat \<Rightarrow> kstate \<Rightarrow> unit result" where
  "iunlockput ip s = bindk (iunlock ip s) (\<lambda>_ s. iput ip s)"

text \<open>The loop of ialloc over the inode numbers from \<open>inum\<close> on (a C int, as in balloc).\<close>

function ialloc_from :: "uint \<Rightarrow> short \<Rightarrow> nat \<Rightarrow> kstate \<Rightarrow> nat result" where
  "ialloc_from d ty inum s =
     (if inum < unat (sb_ninodes (sb s)) then
        (let bno = IBLOCK (word_of_nat inum) (sb s);
             bp = bread d bno s;
             dip = (inum mod IPB) * sizeof_dinode
         in if get16 bp dip = 0 then
              (let bp = memset bp dip 0 sizeof_dinode;
                   bp = put16 bp dip ty;
                   s = log_write d bno bp s
               in iget d (word_of_nat inum) s)
            else ialloc_from d ty (inum + 1) s)
      else panic ''ialloc: no inodes'')"
  by pat_completeness auto
termination
  by (relation "measure (\<lambda>(d, ty, inum, s). unat (sb_ninodes (sb s)) - inum)") auto

declare ialloc_from.simps [simp del]

definition ialloc :: "uint \<Rightarrow> short \<Rightarrow> kstate \<Rightarrow> nat result" where
  "ialloc d ty s = ialloc_from d ty 1 s"

text \<open>The disk block of the \<open>bn\<close>-th block of the inode, allocated if there is none.\<close>

definition bmap :: "nat \<Rightarrow> uint \<Rightarrow> kstate \<Rightarrow> uint result" where
  "bmap ip bn s =
     (if bn < word_of_nat NDIRECT then
        (let addr = i_addrs (icache s ip) (unat bn)
         in if addr = 0 then
              bindk (balloc (i_dev (icache s ip)) s) (\<lambda>addr s.
                Inr (addr, upd_inode ip (\<lambda>i. i\<lparr>i_addrs := (i_addrs i)(unat bn := addr)\<rparr>) s))
            else Inr (addr, s))
      else
        (let bn = bn - word_of_nat NDIRECT
         in if bn < word_of_nat NINDIRECT then
              bindk (let addr = i_addrs (icache s ip) NDIRECT
                     in if addr = 0 then
                          bindk (balloc (i_dev (icache s ip)) s) (\<lambda>addr s.
                            Inr (addr,
                              upd_inode ip (\<lambda>i. i\<lparr>i_addrs := (i_addrs i)(NDIRECT := addr)\<rparr>) s))
                        else Inr (addr, s)) (\<lambda>addr s.
                (let d = i_dev (icache s ip);
                     bp = bread d addr s;
                     a = get32 bp (4 * unat bn)
                 in if a = 0 then
                      bindk (balloc d s) (\<lambda>a s.
                        Inr (a, log_write d addr (put32 bp (4 * unat bn) a) s))
                    else Inr (a, s)))
            else panic ''bmap: out of range''))"

subsection \<open>Inode content (fs.c)\<close>

lemma bindk_cong [fundef_cong]:
  "m = m' \<Longrightarrow> (\<And>x s. m' = Inr (x, s) \<Longrightarrow> f x s = f' x s) \<Longrightarrow> bindk m f = bindk m' f'"
  by (auto simp: bindk_def split: sum.splits)

lemma chunk_bounds:
  fixes tot n off :: uint
  assumes "tot < n"
  shows "unat (n - (tot + min (n - tot) (word_of_nat BSIZE - off mod word_of_nat BSIZE)))
           < unat (n - tot)"
proof -
  define m where "m = min (n - tot) (word_of_nat BSIZE - off mod word_of_nat BSIZE)"
  have "off mod 512 < 512"
    by (simp add: word_mod_less_divisor)
  then have "0 < (512 :: uint) - off mod 512"
    by unat_arith
  moreover have "0 < n - tot"
    using assms by unat_arith
  ultimately have pos: "0 < m"
    by (simp add: m_def BSIZE_def min_def)
  have le: "m \<le> n - tot"
    by (simp add: m_def)
  have "unat (n - (tot + m)) = unat ((n - tot) - m)"
    by (simp add: diff_diff_add)
  also have "\<dots> = unat (n - tot) - unat m"
    by (rule unat_sub [OF le])
  finally have "unat (n - (tot + m)) = unat (n - tot) - unat m" .
  moreover have "0 < unat m"
    using pos by (simp add: unat_gt_0)
  moreover have "unat m \<le> unat (n - tot)"
    using le by (simp add: word_le_nat_alt)
  ultimately have "unat (n - (tot + m)) < unat (n - tot)"
    by linarith
  then show ?thesis
    by (simp add: m_def)
qed

text \<open>The copying loop of readi; it returns the bytes stored to \<open>dst\<close>, in order.\<close>

function readi_loop :: "nat \<Rightarrow> uint \<Rightarrow> uint \<Rightarrow> uint \<Rightarrow> kstate \<Rightarrow> byte list result" where
  "readi_loop ip tot off n s =
     (if tot < n then
        bindk (bmap ip (off div word_of_nat BSIZE) s) (\<lambda>addr s.
          (let bp = bread (i_dev (icache s ip)) addr s;
               m = min (n - tot) (word_of_nat BSIZE - off mod word_of_nat BSIZE)
           in bindk (readi_loop ip (tot + m) (off + m) n s) (\<lambda>rest s.
                Inr (map (\<lambda>k. bp (unat (off mod word_of_nat BSIZE) + k)) [0..<unat m] @ rest,
                     s))))
      else Inr ([], s))"
  by pat_completeness auto
termination
  by (relation "measure (\<lambda>(ip, tot, off, n, s). unat (n - tot))") (auto simp: chunk_bounds)

declare readi_loop.simps [simp del]

definition readi :: "nat \<Rightarrow> uint \<Rightarrow> uint \<Rightarrow> kstate \<Rightarrow> (cint \<times> byte list) result" where
  "readi ip off n s =
     (let i = icache s ip
      in if i_type i = T_DEV then
           (if sint (i_major i) < 0 \<or> sint (i_major i) \<ge> NDEV then Inr ((- 1, []), s)
            else case dread (devsw s (nat (sint (i_major i)))) of
                   None \<Rightarrow> Inr ((- 1, []), s)
                 | Some rd \<Rightarrow> Inr (rd n, s))
         else if off > i_size i \<or> off + n < off then Inr ((- 1, []), s)
         else
           (let n = (if off + n > i_size i then i_size i - off else n)
            in bindk (readi_loop ip 0 off n s) (\<lambda>data s. Inr ((n, data), s))))"

text \<open>The copying loop of writei; it returns the final \<open>off\<close>.\<close>

function writei_loop :: "nat \<Rightarrow> block \<Rightarrow> uint \<Rightarrow> uint \<Rightarrow> uint \<Rightarrow> kstate \<Rightarrow> uint result" where
  "writei_loop ip src tot off n s =
     (if tot < n then
        bindk (bmap ip (off div word_of_nat BSIZE) s) (\<lambda>addr s.
          (let d = i_dev (icache s ip);
               bp = bread d addr s;
               m = min (n - tot) (word_of_nat BSIZE - off mod word_of_nat BSIZE);
               bp = memmove bp (unat (off mod word_of_nat BSIZE)) src (unat m);
               s = log_write d addr bp s
           in writei_loop ip (\<lambda>k. src (k + unat m)) (tot + m) (off + m) n s))
      else Inr (off, s))"
  by pat_completeness auto
termination
  by (relation "measure (\<lambda>(ip, src, tot, off, n, s). unat (n - tot))") (auto simp: chunk_bounds)

declare writei_loop.simps [simp del]

definition writei :: "nat \<Rightarrow> block \<Rightarrow> uint \<Rightarrow> uint \<Rightarrow> kstate \<Rightarrow> cint result" where
  "writei ip src off n s =
     (let i = icache s ip
      in if i_type i = T_DEV then
           (if sint (i_major i) < 0 \<or> sint (i_major i) \<ge> NDEV then Inr (- 1, s)
            else case dwrite (devsw s (nat (sint (i_major i)))) of
                   None \<Rightarrow> Inr (- 1, s)
                 | Some wr \<Rightarrow> Inr (wr src n, s))
         else if off > i_size i \<or> off + n < off then Inr (- 1, s)
         else if off + n > word_of_nat (MAXFILE * BSIZE) then Inr (- 1, s)
         else
           bindk (writei_loop ip src 0 off n s) (\<lambda>off s.
             (if n > 0 \<and> off > i_size (icache s ip) then
                Inr (n, iupdate ip (upd_inode ip (\<lambda>i. i\<lparr>i_size := off\<rparr>) s))
              else Inr (n, s))))"

subsection \<open>Directories (fs.c)\<close>

text \<open>The fields of a \<open>struct dirent\<close> read into memory as the bytes \<open>de\<close>.\<close>

definition de_inum :: "byte list \<Rightarrow> ushort" where
  "de_inum de = get16 (mem_of de) 0"

definition de_name :: "byte list \<Rightarrow> block" where
  "de_name de = (\<lambda>k. mem_of de (2 + k))"

definition namecmp :: "block \<Rightarrow> block \<Rightarrow> int" where
  "namecmp p q = strncmp p q DIRSIZ"

text \<open>
  The loop of dirlookup from offset \<open>off\<close>; \<open>None\<close> is a loop that does not end. On a
  match it returns the inode and the offset it stores through \<open>poff\<close>.
\<close>

partial_function (option) dirlookup_loop ::
  "nat \<Rightarrow> block \<Rightarrow> uint \<Rightarrow> kstate \<Rightarrow> ((nat \<times> uint) option) result option" where
  "dirlookup_loop dp name off s =
     (if off < i_size (icache s dp) then
        (case readi dp off (word_of_nat sizeof_dirent) s of
           Inl e \<Rightarrow> Some (Inl e)
         | Inr ((r, de), s) \<Rightarrow>
             if r \<noteq> word_of_nat sizeof_dirent then Some (panic ''dirlookup read'')
             else if de_inum de = 0 then
               dirlookup_loop dp name (off + word_of_nat sizeof_dirent) s
             else if namecmp name (de_name de) = 0 then
               Some (bindk (iget (i_dev (icache s dp)) (ucast (de_inum de)) s) (\<lambda>ip s.
                  Inr (Some (ip, off), s)))
             else dirlookup_loop dp name (off + word_of_nat sizeof_dirent) s)
      else Some (Inr (None, s)))"

definition dirlookup :: "nat \<Rightarrow> block \<Rightarrow> kstate \<Rightarrow> ((nat \<times> uint) option) result" where
  "dirlookup dp name s =
     (if i_type (icache s dp) \<noteq> T_DIR then panic ''dirlookup not DIR''
      else case dirlookup_loop dp name 0 s of None \<Rightarrow> Inl Diverges | Some r \<Rightarrow> r)"

text \<open>The loop of dirlink that looks for an empty dirent; it returns the final \<open>off\<close>.\<close>

partial_function (option) dirlink_scan :: "nat \<Rightarrow> uint \<Rightarrow> kstate \<Rightarrow> uint result option" where
  "dirlink_scan dp off s =
     (if off < i_size (icache s dp) then
        (case readi dp off (word_of_nat sizeof_dirent) s of
           Inl e \<Rightarrow> Some (Inl e)
         | Inr ((r, de), s) \<Rightarrow>
             if r \<noteq> word_of_nat sizeof_dirent then Some (panic ''dirlink read'')
             else if de_inum de = 0 then Some (Inr (off, s))
             else dirlink_scan dp (off + word_of_nat sizeof_dirent) s)
      else Some (Inr (off, s)))"

text \<open>
  The dirent dirlink writes: every byte of the local \<open>de\<close> is assigned before it is
  written, the name by \<open>strncpy\<close> and the inumber truncated to 16 bits.
\<close>

definition new_dirent :: "block \<Rightarrow> uint \<Rightarrow> block" where
  "new_dirent name inum =
     put16 (memmove (\<lambda>k. 0) 2 (mem_of (strncpy name DIRSIZ)) DIRSIZ) 0 (ucast inum)"

definition dirlink :: "nat \<Rightarrow> block \<Rightarrow> uint \<Rightarrow> kstate \<Rightarrow> cint result" where
  "dirlink dp name inum s =
     bindk (dirlookup dp name s) (\<lambda>r s.
       case r of
         Some (ip, poff) \<Rightarrow> bindk (iput ip s) (\<lambda>_ s. Inr (- 1, s))
       | None \<Rightarrow>
           bindk (case dirlink_scan dp 0 s of None \<Rightarrow> Inl Diverges | Some r \<Rightarrow> r) (\<lambda>off s.
           bindk (writei dp (new_dirent name inum) off (word_of_nat sizeof_dirent) s) (\<lambda>r s.
             if r \<noteq> word_of_nat sizeof_dirent then panic ''dirlink'' else Inr (0, s))))"

subsection \<open>Paths (fs.c)\<close>

function skip_slashes :: "byte list \<Rightarrow> nat \<Rightarrow> nat" where
  "skip_slashes mem path =
     (if deref mem path = slash then skip_slashes mem (path + 1) else path)"
  by pat_completeness auto
termination
  by (relation "measure (\<lambda>(mem, path). length mem - path)")
     (auto simp: deref_def slash_def split: if_splits)

function skip_name :: "byte list \<Rightarrow> nat \<Rightarrow> nat" where
  "skip_name mem path =
     (if deref mem path \<noteq> slash \<and> deref mem path \<noteq> 0 then skip_name mem (path + 1)
      else path)"
  by pat_completeness auto
termination
  by (relation "measure (\<lambda>(mem, path). length mem - path)")
     (auto simp: deref_def split: if_splits)

declare skip_slashes.simps [simp del] skip_name.simps [simp del]

definition skipelem :: "byte list \<Rightarrow> nat \<Rightarrow> block \<Rightarrow> nat option \<times> block" where
  "skipelem mem path name =
     (let path = skip_slashes mem path
      in if deref mem path = 0 then (None, name)
         else
           (let s = path;
                path = skip_name mem path;
                len = path - s;
                name = (if len \<ge> DIRSIZ then memmove name 0 (\<lambda>k. deref mem (s + k)) DIRSIZ
                        else (memmove name 0 (\<lambda>k. deref mem (s + k)) len)(len := 0));
                path = skip_slashes mem path
            in (Some path, name)))"

lemma skip_slashes_ge: "path \<le> skip_slashes mem path"
proof (induction mem path rule: skip_slashes.induct)
  case (1 mem path)
  then show ?case
    by (cases "deref mem path = slash") (simp_all add: skip_slashes.simps [of mem path])
qed

lemma skip_name_ge: "path \<le> skip_name mem path"
proof (induction mem path rule: skip_name.induct)
  case (1 mem path)
  show ?case
  proof (cases "deref mem path \<noteq> slash \<and> deref mem path \<noteq> 0")
    case True
    with 1 have "path + 1 \<le> skip_name mem (path + 1)" by simp
    with True show ?thesis by (simp add: skip_name.simps [of mem path])
  next
    case False
    then show ?thesis by (auto simp: skip_name.simps [of mem path])
  qed
qed

lemma skip_name_gt:
  "deref mem path \<noteq> 0 \<Longrightarrow> deref mem path \<noteq> slash \<Longrightarrow> path < skip_name mem path"
  using skip_name_ge [of "path + 1" mem] by (simp add: skip_name.simps [of mem path])

lemma deref_length: "deref mem p \<noteq> 0 \<Longrightarrow> p < length mem"
  by (simp add: deref_def split: if_splits)

lemma skip_slashes_stop: "deref mem (skip_slashes mem path) \<noteq> slash"
proof (induction mem path rule: skip_slashes.induct)
  case (1 mem path)
  then show ?case
    by (cases "deref mem path = slash") (simp_all add: skip_slashes.simps [of mem path])
qed

lemma skipelem_advances:
  assumes "skipelem mem path name = (Some path', name')"
  shows "path < path'" and "path < length mem"
proof -
  define q where "q = skip_slashes mem path"
  from assms have nz: "deref mem q \<noteq> 0"
    and p': "path' = skip_slashes mem (skip_name mem q)"
    by (auto simp: skipelem_def Let_def q_def split: if_splits)
  have "path \<le> q" by (simp add: q_def skip_slashes_ge)
  moreover have "q < skip_name mem q"
    using nz skip_slashes_stop [of mem path] by (simp add: skip_name_gt q_def)
  moreover have "skip_name mem q \<le> path'" by (simp add: p' skip_slashes_ge)
  ultimately show "path < path'" by linarith
  show "path < length mem"
    using \<open>path \<le> q\<close> deref_length [OF nz] by linarith
qed

lemma skipelem_measure:
  "(Some path', name') = skipelem mem path name \<Longrightarrow> length mem - path' < length mem - path"
  using skipelem_advances [of mem path name path' name'] by simp

text \<open>The loop of namex from the path position \<open>path\<close>, with \<open>ip\<close> the current inode.\<close>

function namex_loop ::
  "byte list \<Rightarrow> nat \<Rightarrow> nat \<Rightarrow> bool \<Rightarrow> block \<Rightarrow> kstate \<Rightarrow> (nat option \<times> block) result" where
  "namex_loop mem path ip nameiparent name s =
     (case skipelem mem path name of
        (None, name) \<Rightarrow>
          (if nameiparent then bindk (iput ip s) (\<lambda>_ s. Inr ((None, name), s))
           else Inr ((Some ip, name), s))
      | (Some path, name) \<Rightarrow>
          bindk (ilock ip s) (\<lambda>_ s.
            if i_type (icache s ip) \<noteq> T_DIR then
              bindk (iunlockput ip s) (\<lambda>_ s. Inr ((None, name), s))
            else if nameiparent \<and> deref mem path = 0 then
              bindk (iunlock ip s) (\<lambda>_ s. Inr ((Some ip, name), s))
            else
              bindk (dirlookup ip name s) (\<lambda>nxt s.
                case nxt of
                  None \<Rightarrow> bindk (iunlockput ip s) (\<lambda>_ s. Inr ((None, name), s))
                | Some (nxt, poff) \<Rightarrow>
                    bindk (iunlockput ip s) (\<lambda>_ s.
                      namex_loop mem path nxt nameiparent name s))))"
  by pat_completeness auto
termination
  by (relation "measure (\<lambda>(mem, path, ip, nameiparent, name, s). length mem - path)")
     (auto dest: skipelem_measure)

declare namex_loop.simps [simp del]

definition namex :: "byte list \<Rightarrow> bool \<Rightarrow> block \<Rightarrow> kstate \<Rightarrow> (nat option \<times> block) result" where
  "namex path nameiparent name s =
     bindk (if deref path 0 = slash then iget ROOTDEV ROOTINO s else idup (cwd s) s) (\<lambda>ip s.
       namex_loop path 0 ip nameiparent name s)"

definition namei :: "byte list \<Rightarrow> kstate \<Rightarrow> nat option result" where
  "namei path s = bindk (namex path False (\<lambda>k. 0) s) (\<lambda>(ip, name) s. Inr (ip, s))"

definition nameiparent :: "byte list \<Rightarrow> block \<Rightarrow> kstate \<Rightarrow> (nat option \<times> block) result" where
  "nameiparent path name s = namex path True name s"

subsection \<open>Open files (file.c)\<close>

function filealloc_scan :: "nat \<Rightarrow> kstate \<Rightarrow> nat option" where
  "filealloc_scan f s =
     (if f < NFILE then (if f_ref (ftable s f) = 0 then Some f else filealloc_scan (f + 1) s)
      else None)"
  by pat_completeness auto
termination
  by (relation "measure (\<lambda>(f, s). NFILE - f)") auto

declare filealloc_scan.simps [simp del]

definition filealloc :: "kstate \<Rightarrow> nat option \<times> kstate" where
  "filealloc s =
     (case filealloc_scan 0 s of
        Some f \<Rightarrow> (Some f, upd_file f (\<lambda>x. x\<lparr>f_ref := 1\<rparr>) s)
      | None \<Rightarrow> (None, s))"

text \<open>
  Modelled from the spec: pipe.c is not among the sources; \<open>pipeclose\<close> changes nothing
  of the state modelled here.
\<close>

definition pipeclose :: "nat \<Rightarrow> byte \<Rightarrow> kstate \<Rightarrow> kstate" where
  "pipeclose p w s = s"

definition fileclose :: "nat \<Rightarrow> kstate \<Rightarrow> unit result" where
  "fileclose f s =
     (if sint (f_ref (ftable s f)) < 1 then panic ''fileclose''
      else
        (let s = upd_file f (\<lambda>x. x\<lparr>f_ref := f_ref x - 1\<rparr>) s
         in if 0 <s f_ref (ftable s f) then Inr ((), s)
            else
              (let ff = ftable s f;
                   s = upd_file f (\<lambda>x. x\<lparr>f_ref := 0, f_type := FD_NONE\<rparr>) s
               in if f_type ff = FD_PIPE then Inr ((), pipeclose (f_pipe ff) (f_writable ff) s)
                  else if f_type ff = FD_INODE then
                    bindk (iput (f_ip ff) (begin_op s)) (\<lambda>_ s. Inr ((), end_op s))
                  else Inr ((), s))))"

definition fileread :: "nat \<Rightarrow> cint \<Rightarrow> kstate \<Rightarrow> (cint \<times> byte list) result" where
  "fileread f n s =
     (if f_readable (ftable s f) = 0 then Inr ((- 1, []), s)
      else if f_type (ftable s f) = FD_PIPE then Inr (piperead s (f_pipe (ftable s f)) n, s)
      else if f_type (ftable s f) = FD_INODE then
        bindk (ilock (f_ip (ftable s f)) s) (\<lambda>_ s.
        bindk (readi (f_ip (ftable s f)) (f_off (ftable s f)) n s) (\<lambda>(r, data) s.
          (let s = (if 0 <s r then upd_file f (\<lambda>x. x\<lparr>f_off := f_off x + r\<rparr>) s else s)
           in bindk (iunlock (f_ip (ftable s f)) s) (\<lambda>_ s. Inr ((r, data), s)))))
      else panic ''fileread'')"

text \<open>The largest chunk filewrite hands to writei in one transaction.\<close>

definition filewrite_max :: cint where
  "filewrite_max = word_of_int (((MAXOPBLOCKS - 1 - 1 - 2) div 2) * 512)"

lemma stb_pos:
  fixes D :: int
  assumes "0 < D" "D < 2 ^ 32" "0 \<le> signed_take_bit 31 D"
  shows "signed_take_bit 31 D = D"
proof (cases "D < 2 ^ 31")
  case True
  with assms show ?thesis by (simp add: signed_take_bit_int_eq_self)
next
  case False
  have "signed_take_bit 31 D = take_bit 32 (D + 2 ^ 31) - 2 ^ 31"
    by (simp add: signed_take_bit_eq_take_bit_shift)
  also have "take_bit 32 (D + 2 ^ 31) = (D + 2 ^ 31) mod 2 ^ 32"
    by (simp add: take_bit_eq_mod)
  also have "(D + 2 ^ 31) mod 2 ^ 32 = D + 2 ^ 31 - 2 ^ 32"
    using False assms by (simp add: mod_pos_geq)
  finally show ?thesis using assms False by simp
qed

lemma sint_sub_pos:
  fixes n i :: "32 word"
  assumes "i <s n" "0 \<le> sint (n - i)"
  shows "sint (n - i) = sint n - sint i"
proof -
  have "sint i < sint n" using assms by (simp add: word_sless_alt)
  moreover have "sint n < 2147483648" "- 2147483648 \<le> sint i"
    using sint_lt [of n] sint_ge [of i] by simp_all
  ultimately have "0 < sint n - sint i" "sint n - sint i < 2 ^ 32" by simp_all
  moreover have "sint (n - i) = signed_take_bit 31 (sint n - sint i)"
    by (simp add: sint_word_ariths)
  ultimately show ?thesis using assms stb_pos by metis
qed


lemma filewrite_step:
  fixes n i n1 :: cint
  assumes lt: "i <s n" and nn: "\<not> n1 <s 0"
    and n1: "n1 = (if filewrite_max <s n - i then filewrite_max else n - i)"
  shows "nat (sint n - sint (i + n1)) < nat (sint n - sint i)"
proof -
  have fm: "sint filewrite_max = 1536"
    by (simp add: filewrite_max_def MAXOPBLOCKS_def)
  have D: "sint i < sint n" using lt by (simp add: word_sless_alt)
  show ?thesis
  proof (cases "filewrite_max <s n - i")
    case True
    then have big: "1536 < sint (n - i)" by (simp add: word_sless_alt fm)
    then have "sint (n - i) = sint n - sint i"
      using sint_sub_pos [OF lt] by simp
    with big have gap: "sint i + 1536 < sint n" by simp
    have "sint (i + filewrite_max) = signed_take_bit 31 (sint i + 1536)"
      by (simp add: sint_word_ariths fm)
    also have "\<dots> = sint i + 1536"
      using gap sint_lt [of n] sint_ge [of i] by (simp add: signed_take_bit_int_eq_self)
    finally show ?thesis using True n1 gap by simp
  next
    case False
    then have "i + n1 = n" using n1 by simp
    then show ?thesis using D by simp
  qed
qed

text \<open>The loop of filewrite from \<open>i\<close> bytes written; it returns the final \<open>i\<close>.\<close>

function filewrite_loop :: "nat \<Rightarrow> block \<Rightarrow> cint \<Rightarrow> cint \<Rightarrow> kstate \<Rightarrow> cint result" where
  "filewrite_loop f addr n i s =
     (if i <s n then
        (let n1 = n - i;
             n1 = (if filewrite_max <s n1 then filewrite_max else n1);
             s = begin_op s
         in bindk (ilock (f_ip (ftable s f)) s) (\<lambda>_ s.
            bindk (writei (f_ip (ftable s f)) (\<lambda>k. addr (k + unat i)) (f_off (ftable s f)) n1 s)
              (\<lambda>r s.
                (let s = (if 0 <s r then upd_file f (\<lambda>x. x\<lparr>f_off := f_off x + r\<rparr>) s else s)
                 in bindk (iunlock (f_ip (ftable s f)) s) (\<lambda>_ s.
                      (let s = end_op s
                       in if r <s 0 then Inr (i, s)
                          else if r \<noteq> n1 then panic ''short filewrite''
                          else filewrite_loop f addr n (i + r) s))))))
      else Inr (i, s))"
  by pat_completeness auto
termination
proof (relation "measure (\<lambda>(f, addr, n, i, s). nat (sint n - sint i))", goal_cases)
  case 1
  show ?case by simp
next
  case (2 f addr n i s n1 n1' s0 u s1 r s2 s3 u' s4 s5)
  then have a: "i <s n" and b: "\<not> r <s 0"
    and c: "r = (if filewrite_max <s n - i then filewrite_max else n - i)"
    by simp_all
  have "nat (sint n - sint (i + r)) < nat (sint n - sint i)"
    by (rule filewrite_step [OF a b c])
  then show ?case by simp
qed

declare filewrite_loop.simps [simp del]

definition filewrite :: "nat \<Rightarrow> block \<Rightarrow> cint \<Rightarrow> kstate \<Rightarrow> cint result" where
  "filewrite f addr n s =
     (if f_writable (ftable s f) = 0 then Inr (- 1, s)
      else if f_type (ftable s f) = FD_PIPE then
        Inr (pipewrite s (f_pipe (ftable s f)) addr n, s)
      else if f_type (ftable s f) = FD_INODE then
        bindk (filewrite_loop f addr n 0 s) (\<lambda>i s. Inr (if i = n then n else - 1, s))
      else panic ''filewrite'')"

subsection \<open>System calls (sysfile.c)\<close>

function fdalloc_scan :: "nat \<Rightarrow> kstate \<Rightarrow> nat option" where
  "fdalloc_scan fd s =
     (if fd < NOFILE then (if ofile s fd = None then Some fd else fdalloc_scan (fd + 1) s)
      else None)"
  by pat_completeness auto
termination
  by (relation "measure (\<lambda>(fd, s). NOFILE - fd)") auto

declare fdalloc_scan.simps [simp del]

definition fdalloc :: "nat \<Rightarrow> kstate \<Rightarrow> cint \<times> kstate" where
  "fdalloc f s =
     (case fdalloc_scan 0 s of
        Some fd \<Rightarrow> (word_of_nat fd, s\<lparr>ofile := (ofile s)(fd := Some f)\<rparr>)
      | None \<Rightarrow> (- 1, s))"

text \<open>The names \<open>"."\<close> and \<open>".."\<close>.\<close>

definition dot :: block where "dot = mem_of [46]"
definition dotdot :: block where "dotdot = mem_of [46, 46]"

text \<open>
  create returns null (\<open>None\<close>) or the locked inode. ialloc and iget never return null,
  so the check after ialloc never fires; the local \<open>name\<close> starts uninitialised and
  reads as zeros here.
\<close>

definition create :: "byte list \<Rightarrow> short \<Rightarrow> short \<Rightarrow> short \<Rightarrow> kstate \<Rightarrow> nat option result" where
  "create path ty mj mn s =
     bindk (nameiparent path (\<lambda>k. 0) s) (\<lambda>(dpo, name) s.
       case dpo of
         None \<Rightarrow> Inr (None, s)
       | Some dp \<Rightarrow>
           bindk (ilock dp s) (\<lambda>_ s.
           bindk (dirlookup dp name s) (\<lambda>r s.
             case r of
               Some (ip, poff) \<Rightarrow>
                 bindk (iunlockput dp s) (\<lambda>_ s.
                 bindk (ilock ip s) (\<lambda>_ s.
                   if ty = T_FILE \<and> i_type (icache s ip) = T_FILE then Inr (Some ip, s)
                   else bindk (iunlockput ip s) (\<lambda>_ s. Inr (None, s))))
             | None \<Rightarrow>
                 bindk (ialloc (i_dev (icache s dp)) ty s) (\<lambda>ip s.
                 bindk (ilock ip s) (\<lambda>_ s.
                   (let s = upd_inode ip
                              (\<lambda>i. i\<lparr>i_major := mj, i_minor := mn, i_nlink := 1\<rparr>) s;
                        s = iupdate ip s
                    in bindk (if ty = T_DIR then
                                (let s = upd_inode dp (\<lambda>i. i\<lparr>i_nlink := i_nlink i + 1\<rparr>) s;
                                     s = iupdate dp s
                                 in bindk (dirlink ip dot (i_inum (icache s ip)) s) (\<lambda>r s.
                                      if r <s 0 then panic ''create dots''
                                      else
                                        bindk (dirlink ip dotdot (i_inum (icache s dp)) s)
                                          (\<lambda>r s.
                                            if r <s 0 then panic ''create dots''
                                            else Inr ((), s))))
                              else Inr ((), s)) (\<lambda>_ s.
                       bindk (dirlink dp name (i_inum (icache s ip)) s) (\<lambda>r s.
                         if r <s 0 then panic ''create: dirlink''
                         else bindk (iunlockput dp s) (\<lambda>_ s. Inr (Some ip, s))))))))))"

text \<open>
  sys_open with its two arguments already fetched from the user stack. The first step
  gives the locked inode, or \<open>None\<close> when the call has already closed the transaction
  and returns -1.
\<close>

definition sys_open :: "byte list \<Rightarrow> cint \<Rightarrow> kstate \<Rightarrow> cint result" where
  "sys_open path omode s =
     bindk (let s = begin_op s
            in if omode AND O_CREATE \<noteq> 0 then
                 bindk (create path T_FILE 0 0 s) (\<lambda>ip s.
                   case ip of None \<Rightarrow> Inr (None, end_op s) | Some ip \<Rightarrow> Inr (Some ip, s))
               else
                 bindk (namei path s) (\<lambda>ip s.
                   case ip of
                     None \<Rightarrow> Inr (None, end_op s)
                   | Some ip \<Rightarrow>
                       bindk (ilock ip s) (\<lambda>_ s.
                         if i_type (icache s ip) = T_DIR \<and> omode \<noteq> O_RDONLY then
                           bindk (iunlockput ip s) (\<lambda>_ s. Inr (None, end_op s))
                         else Inr (Some ip, s)))) (\<lambda>ip s.
       case ip of
         None \<Rightarrow> Inr (- 1, s)
       | Some ip \<Rightarrow>
           (case filealloc s of
              (None, s) \<Rightarrow> bindk (iunlockput ip s) (\<lambda>_ s. Inr (- 1, end_op s))
            | (Some f, s) \<Rightarrow>
                (case fdalloc f s of
                   (fd, s) \<Rightarrow>
                     if fd <s 0 then
                       bindk (fileclose f s) (\<lambda>_ s.
                       bindk (iunlockput ip s) (\<lambda>_ s. Inr (- 1, end_op s)))
                     else
                       bindk (iunlock ip s) (\<lambda>_ s.
                         (let s = end_op s;
                              s = upd_file f (\<lambda>x. x\<lparr>f_type := FD_INODE, f_ip := ip, f_off := 0,
                                     f_readable := (if omode AND O_WRONLY \<noteq> 0 then 0 else 1),
                                     f_writable := (if omode AND O_WRONLY \<noteq> 0
                                                      \<or> omode AND O_RDWR \<noteq> 0 then 1 else 0)\<rparr>) s
                          in Inr (fd, s))))))"

section \<open>Path elements: skipelem\<close>

text \<open>The C string that starts at position \<open>p\<close> of \<open>mem\<close>: the bytes before the first NUL.\<close>

definition str :: "byte list \<Rightarrow> nat \<Rightarrow> byte list" where
  "str mem p = takeWhile (\<lambda>c. c \<noteq> 0) (drop p mem)"

text \<open>
  What the spec says of skipelem, on the path as a list of bytes: the remainder (or
  none) and the new contents of the buffer \<open>name\<close>.
\<close>

definition skipelem_spec :: "byte list \<Rightarrow> block \<Rightarrow> byte list option \<times> block" where
  "skipelem_spec path name =
     (let t = dropWhile (\<lambda>c. c = slash) path;
          el = takeWhile (\<lambda>c. c \<noteq> slash) t;
          rest = dropWhile (\<lambda>c. c = slash) (dropWhile (\<lambda>c. c \<noteq> slash) t)
      in if t = [] then (None, name)
         else (Some rest,
               if DIRSIZ \<le> length el then (\<lambda>k. if k < DIRSIZ then el ! k else name k)
               else (\<lambda>k. if k < length el then el ! k
                         else if k = length el then 0 else name k)))"

lemma str_Nil_iff: "str mem p = [] \<longleftrightarrow> deref mem p = 0"
  by (cases "p < length mem")
     (auto simp: str_def deref_def takeWhile_eq_Nil_iff hd_drop_conv_nth)

lemma str_step: "deref mem p \<noteq> 0 \<Longrightarrow> str mem p = deref mem p # str mem (Suc p)"
  by (cases "p < length mem")
     (auto simp: str_def deref_def Cons_nth_drop_Suc [symmetric])

lemma skip_slashes_str:
  "str mem (skip_slashes mem p) = dropWhile (\<lambda>c. c = slash) (str mem p)"
proof (induction mem p rule: skip_slashes.induct)
  case (1 mem path)
  show ?case
  proof (cases "deref mem path = slash")
    case True
    then have "str mem path = slash # str mem (Suc path)"
      using str_step [of mem path] by (simp add: slash_def)
    with True 1 show ?thesis by (simp add: skip_slashes.simps [of mem path])
  next
    case False
    then show ?thesis
      by (cases "deref mem path = 0")
         (simp_all add: str_Nil_iff [THEN iffD2] str_step skip_slashes.simps [of mem path])
  qed
qed

lemma skip_name_str:
  "str mem (skip_name mem p) = dropWhile (\<lambda>c. c \<noteq> slash) (str mem p)"
proof (induction mem p rule: skip_name.induct)
  case (1 mem path)
  show ?case
  proof (cases "deref mem path \<noteq> slash \<and> deref mem path \<noteq> 0")
    case True
    with 1 show ?thesis by (simp add: str_step skip_name.simps [of mem path])
  next
    case False
    then show ?thesis
      by (cases "deref mem path = 0")
         (simp_all add: str_Nil_iff [THEN iffD2] str_step skip_name.simps [of mem path])
  qed
qed

lemma skip_name_take:
  "skip_name mem p \<le> max p (length mem) \<and>
   take (skip_name mem p - p) (drop p mem) = takeWhile (\<lambda>c. c \<noteq> slash) (str mem p)"
proof (induction mem p rule: skip_name.induct)
  case (1 mem path)
  show ?case
  proof (cases "deref mem path \<noteq> slash \<and> deref mem path \<noteq> 0")
    case True
    then have lt: "path < length mem" by (simp add: deref_length)
    from True 1 have IH: "skip_name mem (Suc path) \<le> max (Suc path) (length mem)"
      "take (skip_name mem (Suc path) - Suc path) (drop (Suc path) mem) =
         takeWhile (\<lambda>c. c \<noteq> slash) (str mem (Suc path))" by simp_all
    have eq: "skip_name mem path = skip_name mem (Suc path)"
      using True by (simp add: skip_name.simps [of mem path])
    have d: "drop path mem = deref mem path # drop (Suc path) mem"
      using lt by (simp add: deref_def Cons_nth_drop_Suc)
    have "Suc path \<le> skip_name mem (Suc path)" by (rule skip_name_ge)
    then obtain k where k: "skip_name mem (Suc path) - path = Suc k"
      "skip_name mem (Suc path) - Suc path = k"
      by (metis Suc_diff_le diff_Suc_Suc)
    show ?thesis
      using True IH lt unfolding eq by (simp add: d k str_step)
  next
    case False
    then show ?thesis
      by (cases "deref mem path = 0")
         (simp_all add: str_Nil_iff [THEN iffD2] str_step skip_name.simps [of mem path])
  qed
qed

text \<open>
  C7. skipelem strips the leading slashes, copies the next element into \<open>name\<close>
  (truncated to \<open>DIRSIZ\<close> bytes and without a NUL when it has \<open>DIRSIZ\<close> bytes or
  more, followed by a NUL when it is shorter), skips the slashes after it and returns
  the position of the remainder; it returns null, and leaves \<open>name\<close> alone, when no
  element remains.
\<close>

theorem skipelem_refines:
  "(case skipelem mem p name of (r, nm) \<Rightarrow> (map_option (str mem) r, nm))
     = skipelem_spec (str mem p) name"
proof -
  define q where "q = skip_slashes mem p"
  define t where "t = dropWhile (\<lambda>c. c = slash) (str mem p)"
  have qt: "str mem q = t" by (simp add: q_def t_def skip_slashes_str)
  show ?thesis
  proof (cases "t = []")
    case True
    then have "deref mem q = 0" using qt str_Nil_iff by metis
    then show ?thesis using True
      by (simp add: skipelem_def skipelem_spec_def Let_def q_def [symmetric] t_def [symmetric])
  next
    case False
    then have nz: "deref mem q \<noteq> 0" using qt str_Nil_iff by metis
    define e where "e = skip_name mem q"
    define el where "el = takeWhile (\<lambda>c. c \<noteq> slash) t"
    have el: "take (e - q) (drop q mem) = el" and ele: "e \<le> max q (length mem)"
      using skip_name_take [of mem q] by (simp_all add: e_def el_def qt)
    have qe: "q \<le> e" by (simp add: e_def skip_name_ge)
    have len: "length el = e - q"
      using el [symmetric] ele qe by (auto simp: min_def)
    have nth: "deref mem (q + k) = el ! k" if "k < e - q" for k
    proof -
      have "q + k < length mem" using that ele qe by (auto simp: max_def split: if_splits)
      then show ?thesis using that el [symmetric] by (simp add: deref_def)
    qed
    have rest: "str mem (skip_slashes mem e) =
        dropWhile (\<lambda>c. c = slash) (dropWhile (\<lambda>c. c \<noteq> slash) t)"
      by (simp add: skip_slashes_str e_def skip_name_str qt)
    have nm1: "memmove name 0 (\<lambda>k. deref mem (q + k)) DIRSIZ =
        (\<lambda>k. if k < DIRSIZ then el ! k else name k)" if "DIRSIZ \<le> e - q"
      using that nth by (auto simp: memmove_def fun_eq_iff)
    have nm2: "(memmove name 0 (\<lambda>k. deref mem (q + k)) (e - q))(e - q := 0) =
        (\<lambda>k. if k < e - q then el ! k else if k = e - q then 0 else name k)"
      using nth by (auto simp: memmove_def fun_eq_iff)
    show ?thesis using False nz rest nm1 nm2 len unfolding el_def
      by (simp add: skipelem_def skipelem_spec_def Let_def q_def [symmetric] t_def [symmetric]
          e_def [symmetric] cong: if_cong)
  qed
qed

text \<open>The second example of the source's comment: \<open>skipelem("///a//bb", name) = "bb"\<close>,
  setting \<open>name = "a"\<close>.\<close>

theorem skipelem_refines_witness:
  "(case skipelem [47, 47, 47, 97, 47, 47, 98, 98] 0 (\<lambda>k. 7) of
      (r, nm) \<Rightarrow> (map_option (str [47, 47, 47, 97, 47, 47, 98, 98]) r, nm 0, nm 1, nm 2))
     = (Some [98, 98], 97, 0, 7)"
proof -
  have "skipelem_spec (str [47, 47, 47, 97, 47, 47, 98, 98] 0) (\<lambda>k. 7) =
      (Some [98, 98], (\<lambda>k. if k < 1 then [97] ! k else if k = 1 then 0 else 7))"
    by (simp add: skipelem_spec_def str_def slash_def DIRSIZ_def Let_def cong: if_cong)
  with skipelem_refines [of "[47, 47, 47, 97, 47, 47, 98, 98]" 0 "\<lambda>k. 7"]
  show ?thesis by (auto split: prod.splits)
qed

section \<open>Basic facts about the model\<close>

lemma bindk_Inr [simp]: "bindk (Inr (x, s)) f = f x s"
  by (simp add: bindk_def)

lemma bindk_Inl [simp]: "bindk (Inl e) f = Inl e"
  by (simp add: bindk_def)

lemma bindk_panic [simp]: "bindk (panic msg) f = panic msg"
  by (simp add: panic_def)

lemma panic_not_Inr [simp]: "panic msg \<noteq> Inr r" "Inr r \<noteq> panic msg"
  by (simp_all add: panic_def)

lemma bindk_eq_Inr: "bindk m f = Inr r \<longleftrightarrow> (\<exists>x s. m = Inr (x, s) \<and> f x s = Inr r)"
  by (cases m) (auto simp: bindk_def)

lemma upd_inode_simps [simp]:
  "icache (upd_inode ip g s) = (icache s)(ip := g (icache s ip))"
  "sb (upd_inode ip g s) = sb s"
  "disk (upd_inode ip g s) = disk s"
  "oplog (upd_inode ip g s) = oplog s"
  "ftable (upd_inode ip g s) = ftable s"
  "devsw (upd_inode ip g s) = devsw s"
  "piperead (upd_inode ip g s) = piperead s"
  "pipewrite (upd_inode ip g s) = pipewrite s"
  "cwd (upd_inode ip g s) = cwd s"
  "ofile (upd_inode ip g s) = ofile s"
  by (simp_all add: upd_inode_def)

section \<open>The inode cache: iget\<close>

text \<open>Slot \<open>k\<close> of the cache is in use and holds inode \<open>inum\<close> of device \<open>d\<close>.\<close>

definition holds :: "kstate \<Rightarrow> nat \<Rightarrow> uint \<Rightarrow> uint \<Rightarrow> bool" where
  "holds s k d inum \<longleftrightarrow>
     0 <s i_ref (icache s k) \<and> i_dev (icache s k) = d \<and> i_inum (icache s k) = inum"

text \<open>No two slots in use hold the same inode.\<close>

definition uniq :: "kstate \<Rightarrow> bool" where
  "uniq s \<longleftrightarrow>
     (\<forall>i<NINODE. \<forall>j<NINODE.
        0 <s i_ref (icache s i) \<and> 0 <s i_ref (icache s j) \<and>
        i_dev (icache s i) = i_dev (icache s j) \<and> i_inum (icache s i) = i_inum (icache s j)
        \<longrightarrow> i = j)"

lemma iget_scan_unfold:
  "iget_scan d inum k empt s =
     (if k < NINODE then
        (if holds s k d inum then Inl k
         else iget_scan d inum (k + 1)
                (if empt = None \<and> i_ref (icache s k) = 0 then Some k else empt) s)
      else Inr empt)"
  by (simp add: iget_scan.simps [of d inum k] holds_def)

lemma iget_scan_Inl:
  "iget_scan d inum k empt s = Inl ip \<Longrightarrow> k \<le> ip \<and> ip < NINODE \<and> holds s ip d inum"
proof (induction d inum k empt s rule: iget_scan.induct)
  case (1 d inum k empt s)
  show ?case
  proof (cases "k < NINODE")
    case True
    show ?thesis
    proof (cases "holds s k d inum")
      case h: True
      with True 1(2) show ?thesis
        by (simp add: iget_scan_unfold [of d inum k])
    next
      case False
      with True 1(2) have
        "iget_scan d inum (k + 1)
           (if empt = None \<and> i_ref (icache s k) = 0 then Some k else empt) s = Inl ip"
        by (simp add: iget_scan_unfold [of d inum k])
      with 1(1) True False show ?thesis by (auto simp: holds_def)
    qed
  next
    case False
    with 1(2) show ?thesis by (simp add: iget_scan_unfold [of d inum k])
  qed
qed

lemma iget_scan_Inr:
  "iget_scan d inum k empt s = Inr r \<Longrightarrow>
     (\<forall>j. k \<le> j \<and> j < NINODE \<longrightarrow> \<not> holds s j d inum) \<and>
     (case r of
        None \<Rightarrow> empt = None \<and> (\<forall>j. k \<le> j \<and> j < NINODE \<longrightarrow> i_ref (icache s j) \<noteq> 0)
      | Some ip \<Rightarrow> empt = Some ip \<or>
          (empt = None \<and> k \<le> ip \<and> ip < NINODE \<and> i_ref (icache s ip) = 0 \<and>
           (\<forall>j. k \<le> j \<and> j < ip \<longrightarrow> i_ref (icache s j) \<noteq> 0)))"
proof (induction d inum k empt s arbitrary: r rule: iget_scan.induct)
  case (1 d inum k empt s)
  show ?case
  proof (cases "k < NINODE")
    case True
    from True 1(2) have nh: "\<not> holds s k d inum"
      by (auto simp: iget_scan_unfold [of d inum k] split: if_splits)
    define e' where "e' = (if empt = None \<and> i_ref (icache s k) = 0 then Some k else empt)"
    from True 1(2) nh have rec: "iget_scan d inum (k + 1) e' s = Inr r"
      by (simp add: iget_scan_unfold [of d inum k] e'_def)
    have "(\<forall>j. k + 1 \<le> j \<and> j < NINODE \<longrightarrow> \<not> holds s j d inum) \<and>
      (case r of
        None \<Rightarrow> e' = None \<and> (\<forall>j. k + 1 \<le> j \<and> j < NINODE \<longrightarrow> i_ref (icache s j) \<noteq> 0)
      | Some ip \<Rightarrow> e' = Some ip \<or>
          (e' = None \<and> k + 1 \<le> ip \<and> ip < NINODE \<and> i_ref (icache s ip) = 0 \<and>
           (\<forall>j. k + 1 \<le> j \<and> j < ip \<longrightarrow> i_ref (icache s j) \<noteq> 0)))"
      unfolding e'_def
      apply (rule 1(1) [OF True _ rec [unfolded e'_def]])
      using nh by (simp add: holds_def)
    then have IH: "\<forall>j. k + 1 \<le> j \<and> j < NINODE \<longrightarrow> \<not> holds s j d inum"
      "case r of
        None \<Rightarrow> e' = None \<and> (\<forall>j. k + 1 \<le> j \<and> j < NINODE \<longrightarrow> i_ref (icache s j) \<noteq> 0)
      | Some ip \<Rightarrow> e' = Some ip \<or>
          (e' = None \<and> k + 1 \<le> ip \<and> ip < NINODE \<and> i_ref (icache s ip) = 0 \<and>
           (\<forall>j. k + 1 \<le> j \<and> j < ip \<longrightarrow> i_ref (icache s j) \<noteq> 0))"
      by blast+
    have a: "\<forall>j. k \<le> j \<and> j < NINODE \<longrightarrow> \<not> holds s j d inum"
    proof (intro allI impI)
      fix j assume "k \<le> j \<and> j < NINODE"
      then show "\<not> holds s j d inum"
        using nh IH(1) by (cases "j = k") auto
    qed
    have step: "(\<forall>j. k + 1 \<le> j \<and> j < m \<longrightarrow> i_ref (icache s j) \<noteq> 0) \<Longrightarrow>
        i_ref (icache s k) \<noteq> 0 \<Longrightarrow> (\<forall>j. k \<le> j \<and> j < m \<longrightarrow> i_ref (icache s j) \<noteq> 0)" for m
      by (metis Suc_eq_plus1 Suc_leI le_neq_implies_less)
    have b: "case r of
        None \<Rightarrow> empt = None \<and> (\<forall>j. k \<le> j \<and> j < NINODE \<longrightarrow> i_ref (icache s j) \<noteq> 0)
      | Some ip \<Rightarrow> empt = Some ip \<or>
          (empt = None \<and> k \<le> ip \<and> ip < NINODE \<and> i_ref (icache s ip) = 0 \<and>
           (\<forall>j. k \<le> j \<and> j < ip \<longrightarrow> i_ref (icache s j) \<noteq> 0))"
    proof (cases r)
      case None
      with IH(2) have "e' = None"
        and z: "\<forall>j. k + 1 \<le> j \<and> j < NINODE \<longrightarrow> i_ref (icache s j) \<noteq> 0" by simp_all
      then have "empt = None" "i_ref (icache s k) \<noteq> 0"
        by (auto simp: e'_def split: if_splits)
      with z step [of NINODE] None show ?thesis by simp
    next
      case (Some ip)
      show ?thesis
      proof (cases "empt = None \<and> i_ref (icache s k) = 0")
        case t: True
        then have "e' = Some k" by (simp add: e'_def)
        with IH(2) Some have "ip = k" by simp
        with t True Some show ?thesis by auto
      next
        case f: False
        then have e: "e' = empt" by (simp add: e'_def)
        show ?thesis
        proof (cases "empt = Some ip")
          case True
          with Some show ?thesis by simp
        next
          case False
          with IH(2) Some e have n: "empt = None" "k + 1 \<le> ip" "ip < NINODE"
            "i_ref (icache s ip) = 0"
            and z: "\<forall>j. k + 1 \<le> j \<and> j < ip \<longrightarrow> i_ref (icache s j) \<noteq> 0"
            by simp_all
          with f have "i_ref (icache s k) \<noteq> 0" by simp
          with z step [of ip] n Some show ?thesis by simp
        qed
      qed
    qed
    from a b show ?thesis by simp
  next
    case False
    with 1(2) show ?thesis
      by (auto simp: iget_scan_unfold [of d inum k] split: option.splits)
  qed
qed


text \<open>A small file system for the examples: nothing cached, nothing open, an empty disk.\<close>

definition inode0 :: inode where
  "inode0 = \<lparr>i_dev = 0, i_inum = 0, i_ref = 0, i_lock = False, i_valid = 0, i_type = 0,
     i_major = 0, i_minor = 0, i_nlink = 0, i_size = 0, i_addrs = (\<lambda>j. 0)\<rparr>"

definition file0 :: openfile where
  "file0 = \<lparr>f_type = FD_NONE, f_ref = 0, f_readable = 0, f_writable = 0, f_pipe = 0,
     f_ip = 0, f_off = 0\<rparr>"

definition kstate0 :: kstate where
  "kstate0 = \<lparr>sb = \<lparr>sb_size = 1000, sb_nblocks = 941, sb_ninodes = 200, sb_nlog = 30,
       sb_logstart = 2, sb_inodestart = 32, sb_bmapstart = 58\<rparr>,
     disk = (\<lambda>d b k. 0), oplog = [], icache = (\<lambda>k. inode0), ftable = (\<lambda>k. file0),
     devsw = (\<lambda>k. \<lparr>dread = None, dwrite = None\<rparr>), piperead = (\<lambda>p n. (0, [])),
     pipewrite = (\<lambda>p a n. 0), cwd = 0, ofile = (\<lambda>k. None)\<rparr>"

text \<open>
  C8. If no two slots in use hold the same inode, the same is true after iget. On a
  hit iget returns the slot that holds the inode and only increments its \<open>ref\<close>; on a
  miss it returns the first slot with \<open>ref = 0\<close> and only sets its device, inumber,
  \<open>ref = 1\<close> and \<open>valid = 0\<close>; it panics when there is neither. The disk and the log are
  not touched.
\<close>

theorem iget_uniq:
  assumes "uniq s"
  shows "case iget d inum s of
           Inl e \<Rightarrow> e = Panic ''iget: no inodes'' \<and>
             (\<forall>j<NINODE. \<not> holds s j d inum \<and> i_ref (icache s j) \<noteq> 0)
         | Inr (ip, s') \<Rightarrow>
             uniq s' \<and> ip < NINODE \<and> disk s' = disk s \<and> oplog s' = oplog s \<and>
             i_dev (icache s' ip) = d \<and> i_inum (icache s' ip) = inum \<and>
             (if \<exists>j<NINODE. holds s j d inum
              then holds s ip d inum \<and> s' = upd_inode ip (\<lambda>i. i\<lparr>i_ref := i_ref i + 1\<rparr>) s
              else i_ref (icache s ip) = 0 \<and> (\<forall>j<ip. i_ref (icache s j) \<noteq> 0) \<and>
                   s' = upd_inode ip
                          (\<lambda>i. i\<lparr>i_dev := d, i_inum := inum, i_ref := 1, i_valid := 0\<rparr>) s)"
proof (cases "iget_scan d inum 0 None s")
  case (Inl ip)
  then have ip: "ip < NINODE" and h: "holds s ip d inum"
    using iget_scan_Inl by blast+
  define s' where "s' = upd_inode ip (\<lambda>i. i\<lparr>i_ref := i_ref i + 1\<rparr>) s"
  have same: "i_dev (icache s' k) = i_dev (icache s k)" "i_inum (icache s' k) = i_inum (icache s k)"
    "0 <s i_ref (icache s' k) \<Longrightarrow> 0 <s i_ref (icache s k)" for k
    using h by (auto simp: s'_def holds_def split: if_splits)
  have "uniq s'"
    unfolding uniq_def
  proof (intro allI impI)
    fix i j assume "i < NINODE" "j < NINODE"
      and "0 <s i_ref (icache s' i) \<and> 0 <s i_ref (icache s' j) \<and>
        i_dev (icache s' i) = i_dev (icache s' j) \<and> i_inum (icache s' i) = i_inum (icache s' j)"
    then show "i = j"
      using assms same unfolding uniq_def by metis
  qed
  moreover have "\<exists>j<NINODE. holds s j d inum" using ip h by blast
  ultimately show ?thesis
    using Inl ip h by (simp add: iget_def s'_def [symmetric]) (simp add: s'_def holds_def)
next
  case (Inr r)
  note scan = iget_scan_Inr [OF Inr]
  then have miss: "\<forall>j. j < NINODE \<longrightarrow> \<not> holds s j d inum" by simp
  show ?thesis
  proof (cases r)
    case None
    with scan have "\<forall>j. j < NINODE \<longrightarrow> i_ref (icache s j) \<noteq> 0" by simp
    with miss Inr None show ?thesis by (simp add: iget_def panic_def)
  next
    case (Some ip)
    with scan have ip: "ip < NINODE" and free: "i_ref (icache s ip) = 0"
      and first: "\<forall>j. j < ip \<longrightarrow> i_ref (icache s j) \<noteq> 0" by simp_all
    define s' where
      "s' = upd_inode ip (\<lambda>i. i\<lparr>i_dev := d, i_inum := inum, i_ref := 1, i_valid := 0\<rparr>) s"
    have other: "icache s' k = icache s k" if "k \<noteq> ip" for k
      using that by (simp add: s'_def)
    have new: "i_dev (icache s' ip) = d" "i_inum (icache s' ip) = inum"
      by (simp_all add: s'_def)
    have "uniq s'"
      unfolding uniq_def
    proof (intro allI impI)
      fix i j assume b: "i < NINODE" "j < NINODE"
        and c: "0 <s i_ref (icache s' i) \<and> 0 <s i_ref (icache s' j) \<and>
          i_dev (icache s' i) = i_dev (icache s' j) \<and> i_inum (icache s' i) = i_inum (icache s' j)"
      show "i = j"
      proof (cases "i = ip")
        case i: True
        show ?thesis
        proof (rule ccontr)
          assume "i \<noteq> j"
          with i c new other [of j] have "holds s j d inum" by (simp add: holds_def)
          with miss b show False by simp
        qed
      next
        case i: False
        show ?thesis
        proof (cases "j = ip")
          case True
          with i c new other [of i] have "holds s i d inum" by (simp add: holds_def)
          with miss b show ?thesis by simp
        next
          case False
          with i b c other [of i] other [of j] assms show ?thesis
            unfolding uniq_def by metis
        qed
      qed
    qed
    moreover have "\<not> (\<exists>j<NINODE. holds s j d inum)" using miss by simp
    ultimately show ?thesis
      using Inr Some ip free first new
      by (simp add: iget_def s'_def [symmetric]) (simp add: s'_def)
  qed
qed

theorem iget_uniq_witness:
  "uniq (upd_inode 3 (\<lambda>i. i\<lparr>i_dev := 1, i_inum := 7, i_ref := 2\<rparr>) kstate0) \<and>
   (case iget 1 7 (upd_inode 3 (\<lambda>i. i\<lparr>i_dev := 1, i_inum := 7, i_ref := 2\<rparr>) kstate0) of
      Inl e \<Rightarrow> False
    | Inr (ip, s') \<Rightarrow> ip = 3 \<and> i_ref (icache s' 3) = 3 \<and> uniq s')"
proof -
  define s where "s = upd_inode 3 (\<lambda>i. i\<lparr>i_dev := 1, i_inum := 7, i_ref := 2\<rparr>) kstate0"
  have u: "uniq s"
    by (simp add: uniq_def s_def kstate0_def inode0_def word_sless_alt)
  have "iget_scan 1 7 0 None s = Inl 3"
    by (simp add: iget_scan.simps s_def kstate0_def inode0_def NINODE_def word_sless_alt)
  then have "iget 1 7 s = Inr (3, upd_inode 3 (\<lambda>i. i\<lparr>i_ref := i_ref i + 1\<rparr>) s)"
    by (simp add: iget_def)
  with iget_uniq [OF u, of 1 7] u show ?thesis
    unfolding s_def [symmetric] by (simp add: s_def kstate0_def inode0_def word_sless_alt)
qed

section \<open>What each operation leaves alone\<close>

text \<open>
  \<open>fs_frame\<close>: only the disk, the log and the inode cache may differ. \<open>disk_frame\<close>:
  the inode cache is the same too. \<open>addrs_frame ip\<close>: of the cache, only the block
  addresses of inode \<open>ip\<close> may differ; \<open>content_frame ip\<close>: only its addresses and its
  size. \<open>slot_frame A\<close>: only the slots in \<open>A\<close> may differ.
\<close>

definition fs_frame :: "kstate \<Rightarrow> kstate \<Rightarrow> bool" where
  "fs_frame s s' \<longleftrightarrow>
     sb s' = sb s \<and> ftable s' = ftable s \<and> devsw s' = devsw s \<and> piperead s' = piperead s \<and>
     pipewrite s' = pipewrite s \<and> cwd s' = cwd s \<and> ofile s' = ofile s"

definition disk_frame :: "kstate \<Rightarrow> kstate \<Rightarrow> bool" where
  "disk_frame s s' \<longleftrightarrow> fs_frame s s' \<and> icache s' = icache s"

definition addrs_frame :: "nat \<Rightarrow> kstate \<Rightarrow> kstate \<Rightarrow> bool" where
  "addrs_frame ip s s' \<longleftrightarrow>
     fs_frame s s' \<and> (\<exists>a. icache s' = (icache s)(ip := (icache s ip)\<lparr>i_addrs := a\<rparr>))"

definition content_frame :: "nat \<Rightarrow> kstate \<Rightarrow> kstate \<Rightarrow> bool" where
  "content_frame ip s s' \<longleftrightarrow>
     fs_frame s s' \<and>
     (\<exists>a z. icache s' = (icache s)(ip := (icache s ip)\<lparr>i_addrs := a, i_size := z\<rparr>))"

definition slot_frame :: "nat set \<Rightarrow> kstate \<Rightarrow> kstate \<Rightarrow> bool" where
  "slot_frame A s s' \<longleftrightarrow> fs_frame s s' \<and> (\<forall>k. k \<notin> A \<longrightarrow> icache s' k = icache s k)"

lemma fs_frame_refl [simp]: "fs_frame s s"
  by (simp add: fs_frame_def)

lemma fs_frame_trans: "fs_frame s s1 \<Longrightarrow> fs_frame s1 s2 \<Longrightarrow> fs_frame s s2"
  by (simp add: fs_frame_def)

lemma disk_frame_refl [simp]: "disk_frame s s"
  by (simp add: disk_frame_def)

lemma disk_frame_trans: "disk_frame s s1 \<Longrightarrow> disk_frame s1 s2 \<Longrightarrow> disk_frame s s2"
  by (auto simp: disk_frame_def intro: fs_frame_trans)

lemma inode_addrs_same [simp]: "(i :: inode)\<lparr>i_addrs := i_addrs i\<rparr> = i"
  by simp

lemma addrs_frame_refl [simp]: "addrs_frame ip s s"
  unfolding addrs_frame_def by (auto intro!: exI [of _ "i_addrs (icache s ip)"])

lemma addrs_frame_trans: "addrs_frame ip s s1 \<Longrightarrow> addrs_frame ip s1 s2 \<Longrightarrow> addrs_frame ip s s2"
proof -
  assume a: "addrs_frame ip s s1" and b: "addrs_frame ip s1 s2"
  from a obtain x where x: "icache s1 = (icache s)(ip := (icache s ip)\<lparr>i_addrs := x\<rparr>)"
    by (auto simp: addrs_frame_def)
  from b obtain y where y: "icache s2 = (icache s1)(ip := (icache s1 ip)\<lparr>i_addrs := y\<rparr>)"
    by (auto simp: addrs_frame_def)
  have "icache s2 = (icache s)(ip := (icache s ip)\<lparr>i_addrs := y\<rparr>)"
    by (simp add: x y)
  moreover have "fs_frame s s2"
    using a b by (auto simp: addrs_frame_def intro: fs_frame_trans)
  ultimately show ?thesis
    unfolding addrs_frame_def by blast
qed

lemma content_frame_refl [simp]: "content_frame ip s s"
  unfolding content_frame_def
  by (auto intro!: exI [of _ "i_addrs (icache s ip)"] exI [of _ "i_size (icache s ip)"])

lemma content_frame_trans:
  "content_frame ip s s1 \<Longrightarrow> content_frame ip s1 s2 \<Longrightarrow> content_frame ip s s2"
proof -
  assume a: "content_frame ip s s1" and b: "content_frame ip s1 s2"
  from a obtain x z where
    x: "icache s1 = (icache s)(ip := (icache s ip)\<lparr>i_addrs := x, i_size := z\<rparr>)"
    by (auto simp: content_frame_def)
  from b obtain y w where
    y: "icache s2 = (icache s1)(ip := (icache s1 ip)\<lparr>i_addrs := y, i_size := w\<rparr>)"
    by (auto simp: content_frame_def)
  have "icache s2 = (icache s)(ip := (icache s ip)\<lparr>i_addrs := y, i_size := w\<rparr>)"
    by (simp add: x y)
  moreover have "fs_frame s s2"
    using a b by (auto simp: content_frame_def intro: fs_frame_trans)
  ultimately show ?thesis
    unfolding content_frame_def by blast
qed

lemma slot_frame_refl [simp]: "slot_frame A s s"
  by (simp add: slot_frame_def)

lemma slot_frame_trans: "slot_frame A s s1 \<Longrightarrow> slot_frame B s1 s2 \<Longrightarrow> slot_frame (A \<union> B) s s2"
  by (auto simp: slot_frame_def intro: fs_frame_trans)

lemma slot_frame_mono: "slot_frame A s s' \<Longrightarrow> A \<subseteq> B \<Longrightarrow> slot_frame B s s'"
  by (auto simp: slot_frame_def)

lemma disk_frame_addrs: "disk_frame s s' \<Longrightarrow> addrs_frame ip s s'"
  unfolding addrs_frame_def disk_frame_def
  by (auto intro!: exI [of _ "i_addrs (icache s ip)"])

lemma addrs_frame_content: "addrs_frame ip s s' \<Longrightarrow> content_frame ip s s'"
  unfolding addrs_frame_def content_frame_def
  by (auto intro!: exI [of _ "i_size (icache s ip)"])

lemma content_frame_slot: "content_frame ip s s' \<Longrightarrow> slot_frame {ip} s s'"
  by (auto simp: content_frame_def slot_frame_def)

lemma addrs_frame_fields:
  assumes "addrs_frame ip s s'"
  shows "i_dev (icache s' k) = i_dev (icache s k)" "i_inum (icache s' k) = i_inum (icache s k)"
    "i_ref (icache s' k) = i_ref (icache s k)" "i_lock (icache s' k) = i_lock (icache s k)"
    "i_valid (icache s' k) = i_valid (icache s k)" "i_type (icache s' k) = i_type (icache s k)"
    "i_major (icache s' k) = i_major (icache s k)" "i_minor (icache s' k) = i_minor (icache s k)"
    "i_nlink (icache s' k) = i_nlink (icache s k)" "i_size (icache s' k) = i_size (icache s k)"
    "k \<noteq> ip \<Longrightarrow> icache s' k = icache s k"
  using assms by (auto simp: addrs_frame_def split: if_splits)

lemma content_frame_fields:
  assumes "content_frame ip s s'"
  shows "i_dev (icache s' k) = i_dev (icache s k)" "i_inum (icache s' k) = i_inum (icache s k)"
    "i_ref (icache s' k) = i_ref (icache s k)" "i_lock (icache s' k) = i_lock (icache s k)"
    "i_valid (icache s' k) = i_valid (icache s k)" "i_type (icache s' k) = i_type (icache s k)"
    "i_major (icache s' k) = i_major (icache s k)" "i_minor (icache s' k) = i_minor (icache s k)"
    "i_nlink (icache s' k) = i_nlink (icache s k)"
    "k \<noteq> ip \<Longrightarrow> icache s' k = icache s k"
  using assms by (auto simp: content_frame_def split: if_splits)

subsection \<open>The block layer\<close>

lemma log_write_frame [simp]: "disk_frame s (log_write d b data s)"
  by (simp add: disk_frame_def fs_frame_def log_write_def)

lemma bzero_frame [simp]: "disk_frame s (bzero d b s)"
  by (simp add: bzero_def Let_def)

lemma begin_op_frame [simp]: "disk_frame s (begin_op s)"
  by (simp add: disk_frame_def fs_frame_def begin_op_def)

lemma end_op_frame [simp]: "disk_frame s (end_op s)"
  by (simp add: disk_frame_def fs_frame_def end_op_def)

lemma balloc_from_frame: "balloc_from d b s = Inr (r, s') \<Longrightarrow> disk_frame s s'"
proof (induction d b s rule: balloc_from.induct)
  case (1 d b s)
  from "1.prems" show ?case
    apply (subst (asm) balloc_from.simps)
    apply (simp add: Let_def split: if_splits option.splits)
     apply (erule "1.IH" [rotated -1]; simp)
    apply (auto intro: disk_frame_trans [OF log_write_frame bzero_frame])
    done
qed

lemma balloc_frame: "balloc d s = Inr (r, s') \<Longrightarrow> disk_frame s s'"
  unfolding balloc_def by (rule balloc_from_frame)

lemma bfree_frame: "bfree d b s = Inr (r, s') \<Longrightarrow> disk_frame s s'"
  by (auto simp: bfree_def Let_def split: if_splits)

lemma iupdate_frame [simp]: "disk_frame s (iupdate ip s)"
  by (simp add: iupdate_def Let_def)

lemma upd_addrs_frame [simp]:
  "addrs_frame ip s (upd_inode ip (\<lambda>i. i\<lparr>i_addrs := g i\<rparr>) s)"
  unfolding addrs_frame_def by (auto simp: fs_frame_def)

lemma upd_size_frame [simp]:
  "content_frame ip s (upd_inode ip (\<lambda>i. i\<lparr>i_size := z\<rparr>) s)"
  unfolding content_frame_def
  by (auto simp: fs_frame_def intro!: exI [of _ "i_addrs (icache s ip)"] exI [of _ z])

lemma bmap_frame: "bmap ip bn s = Inr (r, s') \<Longrightarrow> addrs_frame ip s s'"
  unfolding bmap_def
  by (auto simp: Let_def bindk_eq_Inr split: if_splits
      dest!: balloc_frame [THEN disk_frame_addrs [of _ _ ip]]
      intro: addrs_frame_trans [OF _ upd_addrs_frame]
             addrs_frame_trans [OF _ disk_frame_addrs [OF log_write_frame]]
             addrs_frame_trans)


subsection \<open>Reading and writing\<close>

lemma readi_loop_frame: "readi_loop ip tot off n s = Inr (data, s') \<Longrightarrow> addrs_frame ip s s'"
proof (induction ip tot off n s arbitrary: data rule: readi_loop.induct)
  case (1 ip tot off n s)
  show ?case
  proof (cases "tot < n")
    case True
    with "1.prems" obtain addr s1 rest where
      b: "bmap ip (off div word_of_nat BSIZE) s = Inr (addr, s1)" and
      r: "readi_loop ip (tot + min (n - tot) (word_of_nat BSIZE - off mod word_of_nat BSIZE))
            (off + min (n - tot) (word_of_nat BSIZE - off mod word_of_nat BSIZE)) n s1
          = Inr (rest, s')"
      by (subst (asm) readi_loop.simps) (auto simp: Let_def bindk_eq_Inr)
    from "1.IH" [OF True b refl refl r] bmap_frame [OF b] show ?thesis
      by (rule addrs_frame_trans [rotated])
  next
    case False
    with "1.prems" show ?thesis
      by (subst (asm) readi_loop.simps) simp
  qed
qed

lemma readi_frame: "readi ip off n s = Inr (r, s') \<Longrightarrow> addrs_frame ip s s'"
  unfolding readi_def
  by (auto simp: Let_def bindk_eq_Inr split: if_splits option.splits dest: readi_loop_frame)

lemma writei_loop_frame:
  "writei_loop ip src tot off n s = Inr (r, s') \<Longrightarrow> addrs_frame ip s s'"
proof (induction ip src tot off n s rule: writei_loop.induct)
  case (1 ip src tot off n s)
  show ?case
  proof (cases "tot < n")
    case True
    define m where "m = min (n - tot) (word_of_nat BSIZE - off mod word_of_nat BSIZE)"
    from True "1.prems" obtain addr s1 where
      b: "bmap ip (off div word_of_nat BSIZE) s = Inr (addr, s1)" and
      r: "writei_loop ip (\<lambda>k. src (k + unat m)) (tot + m) (off + m) n
            (log_write (i_dev (icache s1 ip)) addr
               (memmove (bread (i_dev (icache s1 ip)) addr s1)
                  (unat (off mod word_of_nat BSIZE)) src (unat m)) s1)
          = Inr (r, s')"
      by (subst (asm) writei_loop.simps) (auto simp: Let_def bindk_eq_Inr m_def)
    have "addrs_frame ip s1 s'"
      using "1.IH" [OF True b refl refl refl refl refl r [unfolded m_def]]
        disk_frame_addrs [OF log_write_frame] addrs_frame_trans by blast
    with bmap_frame [OF b] show ?thesis
      by (rule addrs_frame_trans)
  next
    case False
    with "1.prems" show ?thesis
      by (subst (asm) writei_loop.simps) simp
  qed
qed

lemma writei_frame: "writei ip src off n s = Inr (r, s') \<Longrightarrow> content_frame ip s s'"
  unfolding writei_def
  by (auto simp: Let_def bindk_eq_Inr split: if_splits option.splits
      dest!: writei_loop_frame [THEN addrs_frame_content]
      intro: content_frame_trans [OF _ addrs_frame_content [OF disk_frame_addrs [OF iupdate_frame]]]
             content_frame_trans [OF _ upd_size_frame] content_frame_trans)

subsection \<open>Locking\<close>

lemma upd_inode_slot_frame [simp]: "slot_frame {ip} s (upd_inode ip g s)"
  by (simp add: slot_frame_def fs_frame_def)

lemma acquiresleep_frame: "acquiresleep ip s = Inr (r, s') \<Longrightarrow> slot_frame {ip} s s'"
  by (auto simp: acquiresleep_def split: if_splits)

lemma ilock_frame: "ilock ip s = Inr (r, s') \<Longrightarrow> slot_frame {ip} s s'"
  unfolding ilock_def
  by (auto simp: Let_def bindk_eq_Inr split: if_splits dest!: acquiresleep_frame
      intro: slot_frame_trans [of "{ip}" _ _ "{ip}", simplified])

lemma iunlock_frame: "iunlock ip s = Inr (r, s') \<Longrightarrow> slot_frame {ip} s s'"
  by (auto simp: iunlock_def releasesleep_def split: if_splits)

lemma slot_frame_ftable: "slot_frame A s s' \<Longrightarrow> ftable s' = ftable s"
  by (simp add: slot_frame_def fs_frame_def)

lemma addrs_frame_ftable: "addrs_frame ip s s' \<Longrightarrow> ftable s' = ftable s"
  by (simp add: addrs_frame_def fs_frame_def)

lemma upd_file_simps [simp]:
  "ftable (upd_file f g s) = (ftable s)(f := g (ftable s f))"
  "icache (upd_file f g s) = icache s"
  "sb (upd_file f g s) = sb s"
  "disk (upd_file f g s) = disk s"
  "oplog (upd_file f g s) = oplog s"
  "devsw (upd_file f g s) = devsw s"
  "piperead (upd_file f g s) = piperead s"
  "pipewrite (upd_file f g s) = pipewrite s"
  "cwd (upd_file f g s) = cwd s"
  "ofile (upd_file f g s) = ofile s"
  by (simp_all add: upd_file_def)

section \<open>Reading through a handle: fileread\<close>

text \<open>
  An example: inode 2 of device 1 is cached in slot 2, a regular file of five bytes
  (\<open>hello\<close>) in block 100, and handle 0 is open on it for reading and writing.
\<close>

definition hello_state :: kstate where
  "hello_state = kstate0
     \<lparr>disk := (\<lambda>d b. if d = 1 \<and> b = 100 then mem_of [104, 101, 108, 108, 111] else (\<lambda>k. 0)),
      icache := (\<lambda>k. if k = 2
         then inode0\<lparr>i_dev := 1, i_inum := 2, i_ref := 1, i_valid := 1, i_type := T_FILE,
                i_nlink := 1, i_size := 5, i_addrs := (\<lambda>j. if j = 0 then 100 else 0)\<rparr>
         else inode0),
      ftable := (\<lambda>k. if k = 0
         then \<lparr>f_type = FD_INODE, f_ref = 1, f_readable = 1, f_writable = 1, f_pipe = 0,
                f_ip = 2, f_off = 0\<rparr>
         else file0)\<rparr>"

text \<open>
  C10. For a readable handle on an inode, when fileread returns it returns what readi
  returned for the handle's inode and offset, after ilock; in the table of open files
  nothing has changed but the offset of this handle, which has advanced by the count
  when the count is positive and is the same when the count is zero or negative.
\<close>

theorem fileread_offset:
  assumes "f_readable (ftable s f) \<noteq> 0" and "f_type (ftable s f) = FD_INODE"
    and "fileread f n s = Inr ((r, data), s')"
  shows "(\<exists>s1 s2. ilock (f_ip (ftable s f)) s = Inr ((), s1) \<and>
            readi (f_ip (ftable s f)) (f_off (ftable s f)) n s1 = Inr ((r, data), s2)) \<and>
         ftable s' = (ftable s)(f := (ftable s f)\<lparr>f_off :=
            (if 0 <s r then f_off (ftable s f) + r else f_off (ftable s f))\<rparr>)"
proof -
  define ip where "ip = f_ip (ftable s f)"
  from assms obtain s1 s2 where
    l: "ilock ip s = Inr ((), s1)" and
    rd: "readi (f_ip (ftable s1 f)) (f_off (ftable s1 f)) n s1 = Inr ((r, data), s2)" and
    u: "iunlock
          (f_ip (ftable (if 0 <s r then upd_file f (\<lambda>x. x\<lparr>f_off := f_off x + r\<rparr>) s2 else s2) f))
          (if 0 <s r then upd_file f (\<lambda>x. x\<lparr>f_off := f_off x + r\<rparr>) s2 else s2) = Inr ((), s')"
    by (auto simp: fileread_def bindk_eq_Inr ip_def Let_def split: if_splits)
  have t1: "ftable s1 = ftable s"
    using ilock_frame [OF l] by (rule slot_frame_ftable)
  have t2: "ftable s2 = ftable s"
    using readi_frame [OF rd] t1 by (simp add: addrs_frame_ftable)
  have t3: "ftable s' =
      ftable (if 0 <s r then upd_file f (\<lambda>x. x\<lparr>f_off := f_off x + r\<rparr>) s2 else s2)"
    using iunlock_frame [OF u] by (rule slot_frame_ftable)
  have "ftable s' = (ftable s)(f := (ftable s f)\<lparr>f_off :=
            (if 0 <s r then f_off (ftable s f) + r else f_off (ftable s f))\<rparr>)"
    by (simp add: t3 t2)
  with l rd t1 show ?thesis
    by (auto simp: ip_def)
qed


lemma fileread_hello:
  "\<exists>s'. fileread 0 8 hello_state = Inr ((5, [104, 101, 108, 108, 111]), s')"
  by (simp add: fileread_def hello_state_def kstate0_def inode0_def file0_def ilock_def
      acquiresleep_def readi_def readi_loop.simps bmap_def bread_def iunlock_def
      holdingsleep_def releasesleep_def Let_def T_FILE_def T_DEV_def NDIRECT_def BSIZE_def
      mem_of_def deref_def word_sless_alt upt_rec)

theorem fileread_offset_witness:
  "f_readable (ftable hello_state 0) \<noteq> 0 \<and> f_type (ftable hello_state 0) = FD_INODE \<and>
   (\<exists>s'. fileread 0 8 hello_state = Inr ((5, [104, 101, 108, 108, 111]), s') \<and>
         f_off (ftable s' 0) = 5 \<and> f_ip (ftable s' 0) = 2)"
proof -
  have a: "f_readable (ftable hello_state 0) \<noteq> 0" "f_type (ftable hello_state 0) = FD_INODE"
    by (simp_all add: hello_state_def)
  obtain s' where e: "fileread 0 8 hello_state = Inr ((5, [104, 101, 108, 108, 111]), s')"
    using fileread_hello by blast
  from fileread_offset [OF a e] have "f_off (ftable s' 0) = 5 \<and> f_ip (ftable s' 0) = 2"
    by (simp add: hello_state_def word_sless_alt)
  with a e show ?thesis by blast
qed

section \<open>File content: readi and writei\<close>

text \<open>
  The block that holds block \<open>bn\<close> of the inode's content, read off the inode and its
  indirect block without allocating; \<open>mapped\<close> says that there is one; \<open>file_byte\<close> is
  the byte at position \<open>p\<close> of the content.
\<close>

definition bmap_ro :: "kstate \<Rightarrow> nat \<Rightarrow> nat \<Rightarrow> uint" where
  "bmap_ro s ip bn =
     (if bn < NDIRECT then i_addrs (icache s ip) bn
      else get32 (disk s (i_dev (icache s ip)) (i_addrs (icache s ip) NDIRECT))
             (4 * (bn - NDIRECT)))"

definition mapped :: "kstate \<Rightarrow> nat \<Rightarrow> nat \<Rightarrow> bool" where
  "mapped s ip bn \<longleftrightarrow>
     bn < MAXFILE \<and> bmap_ro s ip bn \<noteq> 0 \<and> (NDIRECT \<le> bn \<longrightarrow> i_addrs (icache s ip) NDIRECT \<noteq> 0)"

definition file_byte :: "kstate \<Rightarrow> nat \<Rightarrow> nat \<Rightarrow> byte" where
  "file_byte s ip p = disk s (i_dev (icache s ip)) (bmap_ro s ip (p div BSIZE)) (p mod BSIZE)"

lemma unat_NDIRECT [simp]: "unat (word_of_nat NDIRECT :: uint) = NDIRECT"
  by (simp add: NDIRECT_def)

lemma unat_NINDIRECT [simp]: "unat (word_of_nat NINDIRECT :: uint) = NINDIRECT"
  by (simp add: NINDIRECT_def BSIZE_def)

lemma unat_BSIZE [simp]: "unat (word_of_nat BSIZE :: uint) = BSIZE"
  by (simp add: BSIZE_def)

lemma bmap_mapped:
  assumes "mapped s ip (unat bn)"
  shows "bmap ip bn s = Inr (bmap_ro s ip (unat bn), s)"
proof (cases "bn < word_of_nat NDIRECT")
  case True
  then have "unat bn < NDIRECT" by (simp add: word_less_nat_alt)
  with assms True show ?thesis
    by (simp add: bmap_def mapped_def bmap_ro_def Let_def)
next
  case False
  then have ge: "NDIRECT \<le> unat bn" by (simp add: word_less_nat_alt)
  then have le: "(word_of_nat NDIRECT :: uint) \<le> bn" by (simp add: word_le_nat_alt)
  have u: "unat (bn - word_of_nat NDIRECT) = unat bn - NDIRECT"
    using le by (simp add: unat_sub)
  from assms ge have "unat bn - NDIRECT < NINDIRECT" by (auto simp: mapped_def MAXFILE_def)
  then have lt: "bn - word_of_nat NDIRECT < word_of_nat NINDIRECT"
    by (simp add: word_less_nat_alt u)
  from assms ge False lt show ?thesis
    by (simp add: bmap_def mapped_def bmap_ro_def Let_def u bread_def)
qed

lemma bmap_range: "bmap ip bn s = Inr (r, s') \<Longrightarrow> unat bn < MAXFILE"
proof (cases "bn < word_of_nat NDIRECT")
  case True
  then show ?thesis by (simp add: word_less_nat_alt MAXFILE_def)
next
  case False
  assume b: "bmap ip bn s = Inr (r, s')"
  from False have le: "(word_of_nat NDIRECT :: uint) \<le> bn" by simp
  have u: "unat (bn - word_of_nat NDIRECT) = unat bn - NDIRECT"
    using le by (simp add: unat_sub)
  from b False have "bn - word_of_nat NDIRECT < word_of_nat NINDIRECT"
    by (auto simp: bmap_def Let_def split: if_splits)
  then have "unat bn - NDIRECT < NINDIRECT"
    by (simp add: word_less_nat_alt u)
  then show ?thesis by (simp add: MAXFILE_def)
qed

text \<open>The arithmetic of one chunk of the copying loops.\<close>

lemma chunk_facts:
  fixes tot n off :: uint
  assumes "tot < n"
  defines "m \<equiv> min (n - tot) (word_of_nat BSIZE - off mod word_of_nat BSIZE)"
  shows "0 < unat m" and "unat m \<le> unat (n - tot)" and "unat m \<le> BSIZE - unat off mod BSIZE"
    and "unat (off mod word_of_nat BSIZE) = unat off mod BSIZE"
    and "unat (off div word_of_nat BSIZE) = unat off div BSIZE"
    and "tot \<le> tot + m" and "tot + m \<le> n"
    and "unat (n - (tot + m)) = unat (n - tot) - unat m"
    and "unat off + unat (n - tot) < 2 ^ 32 \<Longrightarrow> unat (off + m) = unat off + unat m"
proof -
  have md: "unat (off mod word_of_nat BSIZE) = unat off mod BSIZE"
    by (simp add: unat_mod)
  then show "unat (off mod word_of_nat BSIZE) = unat off mod BSIZE" .
  show "unat (off div word_of_nat BSIZE) = unat off div BSIZE"
    by (simp add: unat_div)
  have "unat off mod BSIZE < BSIZE" by (simp add: BSIZE_def)
  then have lt: "off mod word_of_nat BSIZE < word_of_nat BSIZE"
    by (simp add: word_less_nat_alt md)
  then have sub: "unat (word_of_nat BSIZE - off mod word_of_nat BSIZE) = BSIZE - unat off mod BSIZE"
    by (simp add: unat_sub md)
  have tn: "unat tot < unat n" using assms by (simp add: word_less_nat_alt)
  have nt: "unat (n - tot) = unat n - unat tot"
    using assms by (simp add: unat_sub)
  have um: "unat m = min (unat (n - tot)) (BSIZE - unat off mod BSIZE)"
    by (simp add: m_def min_def word_le_nat_alt sub)
  show pos: "0 < unat m" using um nt tn \<open>unat off mod BSIZE < BSIZE\<close> by simp
  show le: "unat m \<le> unat (n - tot)" using um by simp
  show "unat m \<le> BSIZE - unat off mod BSIZE" using um by simp
  have mle: "m \<le> n - tot" by (simp add: m_def)
  have "unat tot + unat m \<le> unat n" using le nt tn by simp
  then have add: "unat (tot + m) = unat tot + unat m"
    using unsigned_less [of n, where 'a = nat] by (simp add: unat_add_lem [THEN iffD1])
  show "tot \<le> tot + m" by (simp add: word_le_nat_alt add)
  show "tot + m \<le> n" using \<open>unat tot + unat m \<le> unat n\<close> by (simp add: word_le_nat_alt add)
  have "unat (n - (tot + m)) = unat ((n - tot) - m)" by (simp add: diff_diff_add)
  also have "\<dots> = unat (n - tot) - unat m" by (rule unat_sub [OF mle])
  finally show "unat (n - (tot + m)) = unat (n - tot) - unat m" .
  show "unat (off + m) = unat off + unat m" if "unat off + unat (n - tot) < 2 ^ 32"
    using that le by (simp add: unat_add_lem [THEN iffD1])
qed


lemma blk_le: "(m::nat) \<le> 512 - a mod 512 \<Longrightarrow> a + m \<le> (a div 512 + 1) * 512"
proof -
  assume a: "m \<le> 512 - a mod 512"
  define q where "q = a div 512"
  define r where "r = a mod 512"
  have "a = q * 512 + r" by (simp add: q_def r_def)
  moreover have "r < 512" by (simp add: r_def)
  ultimately show ?thesis using a unfolding q_def [symmetric] r_def [symmetric] by simp
qed

lemma readi_loop_unfold:
  assumes "tot < n" and "readi_loop ip tot off n s = Inr (data, s')"
  obtains addr s1 rest where
    "bmap ip (off div word_of_nat BSIZE) s = Inr (addr, s1)"
    "readi_loop ip (tot + min (n - tot) (word_of_nat BSIZE - off mod word_of_nat BSIZE))
       (off + min (n - tot) (word_of_nat BSIZE - off mod word_of_nat BSIZE)) n s1 = Inr (rest, s')"
    "data = map (\<lambda>k. bread (i_dev (icache s1 ip)) addr s1 (unat (off mod word_of_nat BSIZE) + k))
              [0..<unat (min (n - tot) (word_of_nat BSIZE - off mod word_of_nat BSIZE))] @ rest"
  using assms by (subst (asm) readi_loop.simps) (auto simp: Let_def bindk_eq_Inr)

lemma readi_loop_done: "\<not> tot < n \<Longrightarrow> readi_loop ip tot off n s = Inr ([], s)"
  by (subst readi_loop.simps) simp

lemma readi_loop_length:
  "readi_loop ip tot off n s = Inr (data, s') \<Longrightarrow> tot \<le> n \<Longrightarrow> length data = unat (n - tot)"
proof (induction ip tot off n s arbitrary: data rule: readi_loop.induct)
  case (1 ip tot off n s)
  show ?case
  proof (cases "tot < n")
    case True
    from True "1.prems"(1) obtain addr s1 rest where
      b: "bmap ip (off div word_of_nat BSIZE) s = Inr (addr, s1)" and
      r: "readi_loop ip (tot + min (n - tot) (word_of_nat BSIZE - off mod word_of_nat BSIZE))
            (off + min (n - tot) (word_of_nat BSIZE - off mod word_of_nat BSIZE)) n s1
          = Inr (rest, s')" and
      d: "data = map (\<lambda>k. bread (i_dev (icache s1 ip)) addr s1
                             (unat (off mod word_of_nat BSIZE) + k))
              [0..<unat (min (n - tot) (word_of_nat BSIZE - off mod word_of_nat BSIZE))] @ rest"
      by (rule readi_loop_unfold)
    note cf = chunk_facts [OF True, of off]
    from "1.IH" [OF True b refl refl r cf(7)] have "length rest = unat (n - tot) - unat
        (min (n - tot) (word_of_nat BSIZE - off mod word_of_nat BSIZE))"
      by (simp add: cf(8))
    with cf(2) show ?thesis by (simp add: d)
  next
    case False
    with "1.prems" have "tot = n" by simp
    with "1.prems" show ?thesis by (simp add: readi_loop_done)
  qed
qed

lemma readi_loop_bound:
  "readi_loop ip tot off n s = Inr (data, s') \<Longrightarrow> tot < n \<Longrightarrow>
   unat off + unat (n - tot) < 2 ^ 32 \<Longrightarrow> unat off + unat (n - tot) \<le> MAXFILE * BSIZE"
proof (induction ip tot off n s arbitrary: data rule: readi_loop.induct)
  case (1 ip tot off n s)
  define m where "m = min (n - tot) (word_of_nat BSIZE - off mod word_of_nat BSIZE)"
  from "1.prems"(2,1) obtain addr s1 rest where
    b: "bmap ip (off div word_of_nat BSIZE) s = Inr (addr, s1)" and
    r: "readi_loop ip (tot + m) (off + m) n s1 = Inr (rest, s')"
    unfolding m_def by (rule readi_loop_unfold)
  note cf = chunk_facts [OF "1.prems"(2), of off, folded m_def]
  have blk: "unat off div BSIZE < MAXFILE"
    using bmap_range [OF b] by (simp add: cf(5))
  have om: "unat (off + m) = unat off + unat m"
    using cf(9) "1.prems"(3) by simp
  show ?case
  proof (cases "tot + m < n")
    case True
    have "unat (off + m) + unat (n - (tot + m)) < 2 ^ 32"
      using "1.prems"(3) cf(2) by (simp add: om cf(8))
    from "1.IH" [OF "1.prems"(2) b refl refl r [unfolded m_def] True [unfolded m_def]
        this [unfolded m_def]]
    show ?thesis using cf(2) by (simp add: om cf(8) flip: m_def)
  next
    case False
    with cf(7) have "tot + m = n" by simp
    then have "unat (n - tot) = unat m"
      by (metis add_diff_cancel_left')
    moreover have "unat off + unat m \<le> (unat off div BSIZE + 1) * BSIZE"
      using cf(3) blk_le [of "unat m" "unat off"] by (simp add: BSIZE_def)
    moreover have "(unat off div BSIZE + 1) * BSIZE \<le> MAXFILE * BSIZE"
      using blk by (intro mult_le_mono1) simp
    ultimately show ?thesis by linarith
  qed
qed


lemma same_block:
  "k < BSIZE - a mod BSIZE \<Longrightarrow> (a + k) div BSIZE = a div BSIZE \<and> (a + k) mod BSIZE = a mod BSIZE + k"
proof -
  assume k: "k < BSIZE - a mod BSIZE"
  define q where "q = a div BSIZE"
  define r where "r = a mod BSIZE"
  have e: "a + k = q * BSIZE + (r + k)" by (simp add: q_def r_def)
  have "r + k < BSIZE" using k by (simp add: r_def)
  then have "(a + k) div BSIZE = q \<and> (a + k) mod BSIZE = r + k"
    unfolding e by simp
  then show ?thesis by (simp add: q_def r_def)
qed

lemma chunk_bytes:
  assumes "m \<le> BSIZE - a mod BSIZE"
  shows "map (\<lambda>k. disk s (i_dev (icache s ip)) (bmap_ro s ip (a div BSIZE)) (a mod BSIZE + k)) [0..<m]
           = map (file_byte s ip) [a..<a + m]"
proof -
  have "[a..<a + m] = map (\<lambda>i. i + a) [0..<m]"
    by (simp add: map_add_upt add.commute)
  then have "map (file_byte s ip) [a..<a + m] = map (\<lambda>k. file_byte s ip (a + k)) [0..<m]"
    by (simp add: comp_def add.commute)
  also have "\<dots> = map (\<lambda>k. disk s (i_dev (icache s ip)) (bmap_ro s ip (a div BSIZE))
                          (a mod BSIZE + k)) [0..<m]"
    using assms by (auto simp: file_byte_def same_block)
  finally show ?thesis by simp
qed

lemma upt_split: "m \<le> t \<Longrightarrow> [a..<a + m] @ [a + m..<a + t] = [a..<a + (t::nat)]"
proof -
  assume "m \<le> t"
  then obtain d where "t = m + d" using le_Suc_ex by blast
  then show ?thesis
    using upt_add_eq_append [of a "a + m" d] by (simp add: add.assoc)
qed

lemma readi_loop_mapped:
  "tot \<le> n \<Longrightarrow> unat off + unat (n - tot) < 2 ^ 32 \<Longrightarrow>
   (\<forall>p. unat off \<le> p \<and> p < unat off + unat (n - tot) \<longrightarrow> mapped s ip (p div BSIZE)) \<Longrightarrow>
   readi_loop ip tot off n s =
     Inr (map (file_byte s ip) [unat off..<unat off + unat (n - tot)], s)"
proof (induction ip tot off n s rule: readi_loop.induct)
  case (1 ip tot off n s)
  show ?case
  proof (cases "tot < n")
    case True
    define m where "m = min (n - tot) (word_of_nat BSIZE - off mod word_of_nat BSIZE)"
    note cf = chunk_facts [OF True, of off, folded m_def]
    have om: "unat (off + m) = unat off + unat m"
      using cf(9) "1.prems"(2) by simp
    have "mapped s ip (unat off div BSIZE)"
      using "1.prems"(3) cf(1,2) by simp
    then have b: "bmap ip (off div word_of_nat BSIZE) s =
        Inr (bmap_ro s ip (unat off div BSIZE), s)"
      using bmap_mapped [of s ip "off div word_of_nat BSIZE"] by (simp add: cf(5))
    have rest: "readi_loop ip (tot + m) (off + m) n s =
        Inr (map (file_byte s ip) [unat off + unat m..<unat off + unat (n - tot)], s)"
    proof -
      have "unat (off + m) + unat (n - (tot + m)) < 2 ^ 32"
        using "1.prems"(2) cf(2) by (simp add: om cf(8))
      moreover have "\<forall>p. unat (off + m) \<le> p \<and> p < unat (off + m) + unat (n - (tot + m))
          \<longrightarrow> mapped s ip (p div BSIZE)"
        using "1.prems"(3) cf(2) by (simp add: om cf(8))
      ultimately have "readi_loop ip (tot + m) (off + m) n s =
          Inr (map (file_byte s ip)
            [unat (off + m)..<unat (off + m) + unat (n - (tot + m))], s)"
        using "1.IH" [OF True b refl refl, folded m_def] cf(7) by simp
      then show ?thesis using cf(2) by (simp add: om cf(8))
    qed
    have "readi_loop ip tot off n s =
        Inr (map (\<lambda>k. disk s (i_dev (icache s ip)) (bmap_ro s ip (unat off div BSIZE))
                    (unat off mod BSIZE + k)) [0..<unat m]
             @ map (file_byte s ip) [unat off + unat m..<unat off + unat (n - tot)], s)"
      using True b rest
      by (subst readi_loop.simps) (simp add: Let_def m_def [symmetric] bread_def cf(4))
    also have "map (\<lambda>k. disk s (i_dev (icache s ip)) (bmap_ro s ip (unat off div BSIZE))
                    (unat off mod BSIZE + k)) [0..<unat m]
        = map (file_byte s ip) [unat off..<unat off + unat m]"
      by (rule chunk_bytes [OF cf(3)])
    also have "map (file_byte s ip) [unat off..<unat off + unat m] @
        map (file_byte s ip) [unat off + unat m..<unat off + unat (n - tot)]
        = map (file_byte s ip) [unat off..<unat off + unat (n - tot)]"
      using upt_split [OF cf(2), of "unat off"] by (simp flip: map_append)
    finally show ?thesis .
  next
    case False
    with "1.prems"(1) have "tot = n" by simp
    then show ?thesis by (simp add: readi_loop_done)
  qed
qed


lemma sint_small:
  fixes c :: uint
  assumes "unat c < 2 ^ 31"
  shows "sint c = int (unat c)"
proof -
  have "int (unat c) < int (2 ^ 31)"
    using assms by (simp only: of_nat_less_iff)
  then have u: "uint c < 2 ^ 31" by simp
  have "sint c = signed_take_bit 31 (uint c)" by (simp add: sint_uint)
  also have "\<dots> = uint c"
  proof (rule signed_take_bit_int_eq_self)
    show "- (2 ^ 31) \<le> uint c"
      by (rule order_trans [OF _ uint_ge_0]) simp
    show "uint c < 2 ^ 31" by (rule u)
  qed
  finally show ?thesis by simp
qed

text \<open>The count readi copies once the bounds checks have passed.\<close>

lemma readi_clamp:
  fixes off n sz :: uint
  assumes "\<not> (sz < off \<or> off + n < off)"
  shows "(if off + n > sz then sz - off else n) = min n (sz - off)"
    and "unat off + unat (min n (sz - off)) \<le> unat sz"
proof -
  from assms have le: "off \<le> sz" and nw: "off \<le> off + n" by (simp_all add: not_less)
  have add: "unat (off + n) = unat off + unat n"
    using nw by (simp add: no_plus_overflow_unat_size unat_add_lem [THEN iffD1] word_size)
  have sub: "unat (sz - off) = unat sz - unat off"
    using le by (simp add: unat_sub)
  have ule: "unat off \<le> unat sz" using le by (simp add: word_le_nat_alt)
  show "(if off + n > sz then sz - off else n) = min n (sz - off)"
    using ule by (auto simp: min_def word_le_nat_alt word_less_nat_alt add sub)
  show "unat off + unat (min n (sz - off)) \<le> unat sz"
    using ule by (auto simp: min_def word_le_nat_alt sub)
qed

text \<open>
  C1. For an inode that is not a device, readi returns -1 and copies nothing when
  \<open>off\<close> is beyond the size or \<open>off + n\<close> wraps around. Otherwise, when it returns,
  it returns the count \<open>min n (size - off)\<close>, a non-negative int, and has copied
  that many bytes; and when the blocks of that range are all there, it does return,
  with the bytes of the file from \<open>off\<close> on and the state unchanged. (It does not
  return when bmap panics on the way.)
\<close>

theorem readi_spec:
  assumes "i_type (icache s ip) \<noteq> T_DEV"
  shows "(i_size (icache s ip) < off \<or> off + n < off \<longrightarrow>
            readi ip off n s = Inr ((- 1, []), s)) \<and>
         (\<not> (i_size (icache s ip) < off \<or> off + n < off) \<longrightarrow>
            (\<forall>r data s'. readi ip off n s = Inr ((r, data), s') \<longrightarrow>
               r = min n (i_size (icache s ip) - off) \<and> sint r = int (unat r) \<and>
               length data = unat r) \<and>
            ((\<forall>p. unat off \<le> p \<and> p < unat off + unat (min n (i_size (icache s ip) - off))
                  \<longrightarrow> mapped s ip (p div BSIZE)) \<longrightarrow>
             readi ip off n s =
               Inr ((min n (i_size (icache s ip) - off),
                     map (file_byte s ip)
                       [unat off..<unat off + unat (min n (i_size (icache s ip) - off))]), s)))"
proof (cases "i_size (icache s ip) < off \<or> off + n < off")
  case True
  with assms show ?thesis by (auto simp: readi_def Let_def)
next
  case False
  define c where "c = min n (i_size (icache s ip) - off)"
  note cl = readi_clamp [OF False]
  have rd: "readi ip off n s = bindk (readi_loop ip 0 off c s) (\<lambda>data s. Inr ((c, data), s))"
    using assms False cl(1) by (simp add: readi_def Let_def c_def)
  have nowrap: "unat off + unat (c - 0) < 2 ^ 32"
    using cl(2) unsigned_less [of "i_size (icache s ip)", where 'a = nat]
    by (simp add: c_def)
  have a: "r = c \<and> sint r = int (unat r) \<and> length data = unat r"
    if "readi ip off n s = Inr ((r, data), s')" for r data s'
  proof -
    from that rd have l: "readi_loop ip 0 off c s = Inr (data, s')" and r: "r = c"
      by (auto simp: bindk_eq_Inr)
    have len: "length data = unat c"
      using readi_loop_length [OF l] by simp
    have "unat c < 2 ^ 31"
    proof (cases "0 < c")
      case True
      from readi_loop_bound [OF l True nowrap] have "unat c \<le> MAXFILE * BSIZE" by simp
      then show ?thesis by (simp add: MAXFILE_def NDIRECT_def NINDIRECT_def BSIZE_def)
    next
      case False
      then have "c = 0" by (simp add: word_gt_0)
      then show ?thesis by simp
    qed
    then show ?thesis using r len by (simp add: sint_small)
  qed
  have b: "readi ip off n s = Inr ((c, map (file_byte s ip) [unat off..<unat off + unat c]), s)"
    if "\<forall>p. unat off \<le> p \<and> p < unat off + unat c \<longrightarrow> mapped s ip (p div BSIZE)"
    using readi_loop_mapped [of 0 c off s ip] nowrap that by (simp add: rd)
  from False a b show ?thesis
    unfolding c_def by blast
qed

theorem readi_spec_witness:
  "i_type (icache hello_state 2) \<noteq> T_DEV \<and>
   readi 2 6 1 hello_state = Inr ((- 1, []), hello_state) \<and>
   readi 2 0 8 hello_state = Inr ((5, [104, 101, 108, 108, 111]), hello_state)"
proof -
  have t: "i_type (icache hello_state 2) \<noteq> T_DEV"
    by (simp add: hello_state_def T_DEV_def T_FILE_def)
  have sz: "i_size (icache hello_state 2) = 5"
    by (simp add: hello_state_def)
  have m: "\<forall>p. unat (0 :: uint) \<le> p \<and>
      p < unat (0 :: uint) + unat (min 8 (i_size (icache hello_state 2) - 0)) \<longrightarrow>
      mapped hello_state 2 (p div BSIZE)"
    by (simp add: sz mapped_def bmap_ro_def hello_state_def MAXFILE_def NDIRECT_def BSIZE_def)
  have fb: "map (file_byte hello_state 2) [0..<5] = [104, 101, 108, 108, 111]"
    by (simp add: file_byte_def bmap_ro_def hello_state_def kstate0_def inode0_def NDIRECT_def
        BSIZE_def mem_of_def deref_def upt_rec)
  from readi_spec [OF t, of 6 1, THEN conjunct1]
  have "readi 2 6 1 hello_state = Inr ((- 1, []), hello_state)"
    by (simp add: sz)
  moreover have nr: "\<not> (i_size (icache hello_state 2) < 0 \<or> (0 :: uint) + 8 < 0)"
    by simp
  from readi_spec [OF t, of 0 8, THEN conjunct2, THEN mp, OF nr, THEN conjunct2, THEN mp, OF m]
  have "readi 2 0 8 hello_state = Inr ((5, [104, 101, 108, 108, 111]), hello_state)"
    by (simp add: sz fb)
  ultimately show ?thesis using t by simp
qed

section \<open>Reading at the end of a file\<close>

text \<open>
  C9 as stated fails: at \<open>off = size\<close> a count so large that \<open>off + n\<close> wraps around is
  still rejected. Here the file has five bytes, \<open>off = 5\<close> and \<open>n = 0xFFFFFFFF\<close>.
\<close>

theorem readi_eof_counterexample:
  "i_type (icache hello_state 2) \<noteq> T_DEV \<and> i_size (icache hello_state 2) = 5 \<and>
   readi 2 5 0xFFFFFFFF hello_state = Inr ((- 1, []), hello_state)"
  by (simp add: readi_def hello_state_def kstate0_def inode0_def T_DEV_def T_FILE_def Let_def)

text \<open>
  C9, amended. For an inode that is not a device, readi at \<open>off = size\<close> returns 0,
  copies nothing and changes nothing, for every count \<open>n\<close> such that \<open>off + n\<close> does
  not wrap around.
\<close>

theorem readi_eof:
  assumes "i_type (icache s ip) \<noteq> T_DEV" and "off = i_size (icache s ip)"
    and "\<not> off + n < off"
  shows "readi ip off n s = Inr ((0, []), s)"
proof -
  have "(if off + n > off then off - off else n) = 0"
    using assms(3) by (auto simp: not_less) 
  then show ?thesis
    using assms by (simp add: readi_def Let_def readi_loop_done)
qed

theorem readi_eof_witness:
  "i_type (icache hello_state 2) \<noteq> T_DEV \<and> 5 = i_size (icache hello_state 2) \<and>
   \<not> (5 :: uint) + 8 < 5 \<and> readi 2 5 8 hello_state = Inr ((0, []), hello_state)"
proof -
  have a: "i_type (icache hello_state 2) \<noteq> T_DEV" "5 = i_size (icache hello_state 2)"
    "\<not> (5 :: uint) + 8 < 5"
    by (simp_all add: hello_state_def T_DEV_def T_FILE_def)
  from readi_eof [OF a] a show ?thesis by simp
qed

section \<open>Writing: writei\<close>

lemma writei_loop_done: "\<not> tot < n \<Longrightarrow> writei_loop ip src tot off n s = Inr (off, s)"
  by (subst writei_loop.simps) simp

lemma writei_loop_off:
  "writei_loop ip src tot off n s = Inr (r, s') \<Longrightarrow> tot \<le> n \<Longrightarrow> r = off + (n - tot)"
proof (induction ip src tot off n s rule: writei_loop.induct)
  case (1 ip src tot off n s)
  show ?case
  proof (cases "tot < n")
    case True
    define m where "m = min (n - tot) (word_of_nat BSIZE - off mod word_of_nat BSIZE)"
    from True "1.prems"(1) obtain addr s1 where
      b: "bmap ip (off div word_of_nat BSIZE) s = Inr (addr, s1)" and
      r: "writei_loop ip (\<lambda>k. src (k + unat m)) (tot + m) (off + m) n
            (log_write (i_dev (icache s1 ip)) addr
               (memmove (bread (i_dev (icache s1 ip)) addr s1)
                  (unat (off mod word_of_nat BSIZE)) src (unat m)) s1)
          = Inr (r, s')"
      by (subst (asm) writei_loop.simps) (auto simp: Let_def bindk_eq_Inr m_def)
    note cf = chunk_facts [OF True, of off, folded m_def]
    from "1.IH" [OF True b refl refl refl refl refl r [unfolded m_def], folded m_def] cf(7)
    have "r = off + m + (n - (tot + m))" by simp
    then show ?thesis by simp
  next
    case False
    with "1.prems" have "tot = n" by simp
    with "1.prems" show ?thesis by (simp add: writei_loop_done)
  qed
qed

lemma unat_maxfile [simp]:
  "unat (word_of_nat (MAXFILE * BSIZE) :: uint) = MAXFILE * BSIZE"
  "unat (word_of_nat MAXFILE * word_of_nat BSIZE :: uint) = MAXFILE * BSIZE"
  by (simp_all add: MAXFILE_def NDIRECT_def NINDIRECT_def BSIZE_def)

text \<open>
  C5. For an inode that is not a device, writei returns -1 and changes nothing when
  \<open>off + n\<close> exceeds \<open>MAXFILE * BSIZE\<close>. A call that returns anything else has passed
  the checks, returns \<open>n\<close> and has run the copying loop from \<open>off\<close> to \<open>off + n\<close>;
  when \<open>off + n\<close> is beyond the old size, the cached size becomes \<open>off + n\<close> and
  iupdate writes the inode; otherwise the size is left as it was and iupdate is not
  called.
\<close>

theorem writei_spec:
  assumes "i_type (icache s ip) \<noteq> T_DEV"
  shows "(MAXFILE * BSIZE < unat off + unat n \<longrightarrow> writei ip src off n s = Inr (- 1, s)) \<and>
         (\<forall>r s'. writei ip src off n s = Inr (r, s') \<and> r \<noteq> - 1 \<longrightarrow>
            r = n \<and> unat off + unat n \<le> MAXFILE * BSIZE \<and>
            (\<exists>s2. writei_loop ip src 0 off n s = Inr (off + n, s2) \<and>
                  i_size (icache s2 ip) = i_size (icache s ip) \<and>
                  s' = (if i_size (icache s ip) < off + n
                        then iupdate ip (upd_inode ip (\<lambda>i. i\<lparr>i_size := off + n\<rparr>) s2)
                        else s2)) \<and>
            i_size (icache s' ip) = max (i_size (icache s ip)) (off + n))"
proof (cases "i_size (icache s ip) < off \<or> off + n < off")
  case True
  with assms have "writei ip src off n s = Inr (- 1, s)"
    by (auto simp: writei_def Let_def)
  then show ?thesis by simp
next
  case False
  then have le: "off \<le> i_size (icache s ip)" and nw: "off \<le> off + n"
    by (simp_all add: not_less)
  have add: "unat (off + n) = unat off + unat n"
    using nw by (simp add: no_plus_overflow_unat_size unat_add_lem [THEN iffD1] word_size)
  show ?thesis
  proof (cases "off + n > word_of_nat (MAXFILE * BSIZE)")
    case big: True
    with assms False have "writei ip src off n s = Inr (- 1, s)"
      by (auto simp: writei_def Let_def)
    then show ?thesis by simp
  next
    case small: False
    then have bound: "unat off + unat n \<le> MAXFILE * BSIZE"
      by (simp add: word_less_nat_alt add not_less)
    have w: "writei ip src off n s =
        bindk (writei_loop ip src 0 off n s) (\<lambda>off' s2.
          if n > 0 \<and> off' > i_size (icache s2 ip)
          then Inr (n, iupdate ip (upd_inode ip (\<lambda>i. i\<lparr>i_size := off'\<rparr>) s2))
          else Inr (n, s2))"
      using assms False small by (simp add: writei_def Let_def)
    have b: "r = n \<and> unat off + unat n \<le> MAXFILE * BSIZE \<and>
            (\<exists>s2. writei_loop ip src 0 off n s = Inr (off + n, s2) \<and>
                  i_size (icache s2 ip) = i_size (icache s ip) \<and>
                  s' = (if i_size (icache s ip) < off + n
                        then iupdate ip (upd_inode ip (\<lambda>i. i\<lparr>i_size := off + n\<rparr>) s2)
                        else s2)) \<and>
            i_size (icache s' ip) = max (i_size (icache s ip)) (off + n)"
      if "writei ip src off n s = Inr (r, s')" for r s'
    proof -
      from that [unfolded w bindk_eq_Inr] obtain off' s2 where
        l: "writei_loop ip src 0 off n s = Inr (off', s2)" and
        e: "(if n > 0 \<and> off' > i_size (icache s2 ip)
             then Inr (n, iupdate ip (upd_inode ip (\<lambda>i. i\<lparr>i_size := off'\<rparr>) s2))
             else Inr (n, s2)) = (Inr (r, s') :: cint result)"
        by blast
      have o: "off' = off + n" using writei_loop_off [OF l] by simp
      have sz: "i_size (icache s2 ip) = i_size (icache s ip)"
        using writei_loop_frame [OF l] by (rule addrs_frame_fields(10))
      have pos: "i_size (icache s ip) < off + n \<Longrightarrow> n > 0"
        using le by (cases "n = 0") (simp_all add: word_gt_0)
      have ic: "icache (iupdate ip t) = icache t" for t
        using iupdate_frame [of t ip] by (simp add: disk_frame_def)
      show ?thesis
      proof (cases "i_size (icache s ip) < off + n")
        case True
        with e pos o sz have "r = n"
          "s' = iupdate ip (upd_inode ip (\<lambda>i. i\<lparr>i_size := off + n\<rparr>) s2)"
          by auto
        with True l o sz bound show ?thesis
          by (auto simp: ic max_def)
      next
        case False
        with e o sz have "r = n" "s' = s2" by auto
        with False l o sz bound show ?thesis
          by (auto simp: max_def not_less)
      qed
    qed
    have "\<not> MAXFILE * BSIZE < unat off + unat n" using bound by simp
    with b show ?thesis by blast
  qed
qed

lemma writei_hello: "\<exists>s'. writei 2 (mem_of [33, 33, 33]) 5 3 hello_state = Inr (3, s')"
  by (simp add: writei_def writei_loop.simps hello_state_def kstate0_def inode0_def
      bmap_def bread_def Let_def T_FILE_def T_DEV_def NDIRECT_def NINDIRECT_def MAXFILE_def
      BSIZE_def)

theorem writei_spec_witness:
  "i_type (icache hello_state 2) \<noteq> T_DEV \<and>
   writei 2 (mem_of [33, 33, 33]) 5 71680 hello_state = Inr (- 1, hello_state) \<and>
   (\<exists>s'. writei 2 (mem_of [33, 33, 33]) 5 3 hello_state = Inr (3, s') \<and>
         i_size (icache s' 2) = 8)"
proof -
  have t: "i_type (icache hello_state 2) \<noteq> T_DEV"
    by (simp add: hello_state_def T_DEV_def T_FILE_def)
  have sz: "i_size (icache hello_state 2) = 5"
    by (simp add: hello_state_def)
  have big: "MAXFILE * BSIZE < unat (5 :: uint) + unat (71680 :: uint)"
    by (simp add: MAXFILE_def NDIRECT_def NINDIRECT_def BSIZE_def)
  note a = writei_spec [OF t, of 5 71680 "mem_of [33, 33, 33]", THEN conjunct1, THEN mp, OF big]
  obtain s' where e: "writei 2 (mem_of [33, 33, 33]) 5 3 hello_state = Inr (3, s')"
    using writei_hello by blast
  have "writei 2 (mem_of [33, 33, 33]) 5 3 hello_state = Inr (3, s') \<and> (3 :: cint) \<noteq> - 1"
    using e by simp
  from writei_spec [OF t, of 5 3 "mem_of [33, 33, 33]", THEN conjunct2, rule_format, OF this]
  have "i_size (icache s' 2) = 8" by (simp add: sz)
  with a t e show ?thesis by blast
qed

section \<open>The on-disk inode, written and read back\<close>

lemma get16_put16 [simp]: "get16 (put16 b k w) k = w"
  unfolding get16_def put16_def
  by (rule bit_word_eqI) (auto simp: bit_simps)

lemma get32_put32 [simp]: "get32 (put32 b k w) k = w"
proof (rule bit_word_eqI)
  fix n assume "n < LENGTH(32)"
  then consider "n < 8" | "8 \<le> n" "n < 16" | "16 \<le> n" "n < 24" | "24 \<le> n" "n < 32"
    by fastforce
  then show "bit (get32 (put32 b k w) k) n = bit w n"
    by cases (auto simp: bit_simps get32_def put32_def)
qed

lemma put16_other: "j \<noteq> k \<Longrightarrow> j \<noteq> k + 1 \<Longrightarrow> put16 b k w j = b j"
  by (simp add: put16_def)

lemma put32_other: "j < k \<or> k + 3 < j \<Longrightarrow> put32 b k w j = b j"
  by (auto simp: put32_def)

lemma get16_cong: "b k = c k \<Longrightarrow> b (k + 1) = c (k + 1) \<Longrightarrow> get16 b k = get16 c k"
  by (simp add: get16_def)

lemma get32_cong:
  "b k = c k \<Longrightarrow> b (k + 1) = c (k + 1) \<Longrightarrow> b (k + 2) = c (k + 2) \<Longrightarrow> b (k + 3) = c (k + 3) \<Longrightarrow>
   get32 b k = get32 c k"
  by (simp add: get32_def)


lemma fold_put32_other:
  "x < dip + 12 \<Longrightarrow> fold (\<lambda>j b. put32 b (dip + 12 + 4 * j) (a j)) js bp x = bp x"
  by (induction js arbitrary: bp) (simp_all add: put32_other)

lemma put_addrs_other: "x < dip + 12 \<Longrightarrow> put_addrs bp dip a x = bp x"
  unfolding put_addrs_def by (rule fold_put32_other)

lemma fold_put32_get:
  "j < N \<Longrightarrow> get32 (fold (\<lambda>j b. put32 b (dip + 12 + 4 * j) (a j)) [0..<N] bp) (dip + 12 + 4 * j) = a j"
proof (induction N)
  case 0
  then show ?case by simp
next
  case (Suc N)
  show ?case
  proof (cases "j = N")
    case True
    then show ?thesis by simp
  next
    case False
    with Suc.prems have lt: "j < N" by simp
    have "get32 (put32 (fold (\<lambda>j b. put32 b (dip + 12 + 4 * j) (a j)) [0..<N] bp)
              (dip + 12 + 4 * N) (a N)) (dip + 12 + 4 * j)
        = get32 (fold (\<lambda>j b. put32 b (dip + 12 + 4 * j) (a j)) [0..<N] bp) (dip + 12 + 4 * j)"
      using lt by (intro get32_cong) (simp_all add: put32_other)
    with Suc.IH [OF lt] show ?thesis by simp
  qed
qed

lemma put_addrs_get: "j < NDIRECT + 1 \<Longrightarrow> get32 (put_addrs bp dip a) (dip + 12 + 4 * j) = a j"
  unfolding put_addrs_def by (rule fold_put32_get)

text \<open>After iupdate the inode's slot on the disk holds the cached fields.\<close>

lemma iupdate_dinode:
  fixes s ip
  defines "i \<equiv> icache s ip"
  defines "dip \<equiv> get_dinode (disk (iupdate ip s) (i_dev i) (IBLOCK (i_inum i) (sb s)))
                    (unat (i_inum i) mod IPB)"
  shows "d_type dip = i_type i" and "d_major dip = i_major i" and "d_minor dip = i_minor i"
    and "d_nlink dip = i_nlink i" and "d_size dip = i_size i"
    and "j < NDIRECT + 1 \<Longrightarrow> d_addrs dip j = i_addrs i j"
proof -
  define k where "k = (unat (i_inum i) mod IPB) * sizeof_dinode"
  define b0 where "b0 = bread (i_dev i) (IBLOCK (i_inum i) (sb s)) s"
  define b1 where "b1 = put16 b0 k (i_type i)"
  define b2 where "b2 = put16 b1 (k + 2) (i_major i)"
  define b3 where "b3 = put16 b2 (k + 4) (i_minor i)"
  define b4 where "b4 = put16 b3 (k + 6) (i_nlink i)"
  define b5 where "b5 = put32 b4 (k + 8) (i_size i)"
  define b6 where "b6 = put_addrs b5 k (i_addrs i)"
  have d: "disk (iupdate ip s) (i_dev i) (IBLOCK (i_inum i) (sb s)) = b6"
    by (simp add: iupdate_def Let_def log_write_def i_def b6_def b5_def b4_def b3_def b2_def
        b1_def b0_def k_def)
  have low: "b6 x = b5 x" if "x < k + 12" for x
    using that by (simp add: b6_def put_addrs_other)
  have "get16 b6 k = get16 b1 k"
    by (intro get16_cong) (simp_all add: low b5_def b4_def b3_def b2_def put32_other put16_other)
  then show "d_type dip = i_type i"
    by (simp add: dip_def d get_dinode_def Let_def k_def [symmetric] b1_def)
  have "get16 b6 (k + 2) = get16 b2 (k + 2)"
    by (intro get16_cong) (simp_all add: low b5_def b4_def b3_def put32_other put16_other)
  then show "d_major dip = i_major i"
    by (simp add: dip_def d get_dinode_def Let_def k_def [symmetric] b2_def)
  have "get16 b6 (k + 4) = get16 b3 (k + 4)"
    by (intro get16_cong) (simp_all add: low b5_def b4_def put32_other put16_other)
  then show "d_minor dip = i_minor i"
    by (simp add: dip_def d get_dinode_def Let_def k_def [symmetric] b3_def)
  have "get16 b6 (k + 6) = get16 b4 (k + 6)"
    by (intro get16_cong) (simp_all add: low b5_def put32_other)
  then show "d_nlink dip = i_nlink i"
    by (simp add: dip_def d get_dinode_def Let_def k_def [symmetric] b4_def)
  have "get32 b6 (k + 8) = get32 b5 (k + 8)"
    by (intro get32_cong) (simp_all add: low)
  then show "d_size dip = i_size i"
    by (simp add: dip_def d get_dinode_def Let_def k_def [symmetric] b5_def)
  show "d_addrs dip j = i_addrs i j" if "j < NDIRECT + 1"
    using put_addrs_get [OF that, of b5 k "i_addrs i"]
    by (simp add: dip_def d get_dinode_def Let_def k_def [symmetric] b6_def)
qed

section \<open>Releasing an inode: itrunc and iput\<close>

lemma upd_addrs_eq:
  "i_addrs (icache (upd_inode ip (\<lambda>i. i\<lparr>i_addrs := (i_addrs i)(j := v)\<rparr>) s) ip) x =
     (if x = j then v else i_addrs (icache s ip) x)"
  by simp

lemma itrunc_direct_post:
  "itrunc_direct ip js s = Inr (u, s') \<Longrightarrow>
   addrs_frame ip s s' \<and>
   (\<forall>x. i_addrs (icache s' ip) x = (if x \<in> set js then 0 else i_addrs (icache s ip) x))"
proof (induction js arbitrary: s)
  case Nil
  then show ?case by simp
next
  case (Cons j js)
  show ?case
  proof (cases "i_addrs (icache s ip) j = 0")
    case True
    with Cons.prems have "itrunc_direct ip js s = Inr (u, s')" by simp
    from Cons.IH [OF this] True show ?thesis by auto
  next
    case False
    define s2 where "s2 = (\<lambda>s1. upd_inode ip (\<lambda>i. i\<lparr>i_addrs := (i_addrs i)(j := 0)\<rparr>) s1)"
    from False Cons.prems obtain s1 where
      f: "bfree (i_dev (icache s ip)) (i_addrs (icache s ip) j) s = Inr ((), s1)" and
      r: "itrunc_direct ip js (s2 s1) = Inr (u, s')"
      by (auto simp: bindk_eq_Inr s2_def)
    have ic: "icache s1 = icache s"
      using bfree_frame [OF f] by (simp add: disk_frame_def)
    have f1: "addrs_frame ip s (s2 s1)"
      unfolding s2_def
      by (rule addrs_frame_trans [OF disk_frame_addrs [OF bfree_frame [OF f]] upd_addrs_frame])
    have a2: "i_addrs (icache (s2 s1) ip) x = (if x = j then 0 else i_addrs (icache s ip) x)" for x
      by (simp add: s2_def ic)
    from Cons.IH [OF r] f1 a2 show ?thesis
      by (auto intro: addrs_frame_trans)
  qed
qed

lemma itrunc_indirect_frame: "itrunc_indirect d bp js s = Inr (u, s') \<Longrightarrow> disk_frame s s'"
proof (induction js arbitrary: s)
  case Nil
  then show ?case by simp
next
  case (Cons j js)
  then show ?case
    by (auto simp: bindk_eq_Inr split: if_splits dest!: bfree_frame intro: disk_frame_trans)
qed

lemma itrunc_post:
  assumes "itrunc ip s = Inr (u, s')"
  shows "content_frame ip s s'" and "i_size (icache s' ip) = 0"
    and "j < NDIRECT + 1 \<Longrightarrow> i_addrs (icache s' ip) j = 0"
proof -
  from assms [unfolded itrunc_def bindk_eq_Inr Let_def] obtain x s1 y s2 where
    d: "itrunc_direct ip [0..<NDIRECT] s = Inr (x, s1)" and
    i: "(if i_addrs (icache s1 ip) NDIRECT \<noteq> 0 then
           bindk (itrunc_indirect (i_dev (icache s1 ip))
                    (bread (i_dev (icache s1 ip)) (i_addrs (icache s1 ip) NDIRECT) s1)
                    [0..<NINDIRECT] s1) (\<lambda>_ s.
           bindk (bfree (i_dev (icache s1 ip)) (i_addrs (icache s ip) NDIRECT) s) (\<lambda>_ s.
             Inr ((), upd_inode ip (\<lambda>i. i\<lparr>i_addrs := (i_addrs i)(NDIRECT := 0)\<rparr>) s)))
         else Inr ((), s1)) = (Inr (y, s2) :: unit result)" and
    e': "(Inr ((), iupdate ip (upd_inode ip (\<lambda>i. i\<lparr>i_size := 0\<rparr>) s2)) :: unit result)
           = Inr (u, s')"
    by blast
  from e' have e: "s' = iupdate ip (upd_inode ip (\<lambda>i. i\<lparr>i_size := 0\<rparr>) s2)" by simp
  note p1 = itrunc_direct_post [OF d]
  have p2: "addrs_frame ip s1 s2 \<and>
      (\<forall>x. i_addrs (icache s2 ip) x = (if x = NDIRECT then 0 else i_addrs (icache s1 ip) x))"
  proof (cases "i_addrs (icache s1 ip) NDIRECT \<noteq> 0")
    case True
    with i have "bindk (itrunc_indirect (i_dev (icache s1 ip))
                    (bread (i_dev (icache s1 ip)) (i_addrs (icache s1 ip) NDIRECT) s1)
                    [0..<NINDIRECT] s1) (\<lambda>_ s.
           bindk (bfree (i_dev (icache s1 ip)) (i_addrs (icache s ip) NDIRECT) s) (\<lambda>_ s.
             Inr ((), upd_inode ip (\<lambda>i. i\<lparr>i_addrs := (i_addrs i)(NDIRECT := 0)\<rparr>) s)))
          = (Inr (y, s2) :: unit result)" by simp
    from this [unfolded bindk_eq_Inr] obtain x1 t1 x2 t2 where
      a: "itrunc_indirect (i_dev (icache s1 ip))
            (bread (i_dev (icache s1 ip)) (i_addrs (icache s1 ip) NDIRECT) s1)
            [0..<NINDIRECT] s1 = Inr (x1, t1)" and
      b: "bfree (i_dev (icache s1 ip)) (i_addrs (icache t1 ip) NDIRECT) t1 = Inr (x2, t2)" and
      c': "(Inr ((), upd_inode ip (\<lambda>i. i\<lparr>i_addrs := (i_addrs i)(NDIRECT := 0)\<rparr>) t2)
             :: unit result) = Inr (y, s2)"
      by blast
    from c' have c: "s2 = upd_inode ip (\<lambda>i. i\<lparr>i_addrs := (i_addrs i)(NDIRECT := 0)\<rparr>) t2"
      by simp
    have df: "disk_frame s1 t2"
      using itrunc_indirect_frame [OF a] bfree_frame [OF b] by (rule disk_frame_trans)
    then have ic: "icache t2 = icache s1" by (simp add: disk_frame_def)
    have "addrs_frame ip s1 s2"
      unfolding c by (rule addrs_frame_trans [OF disk_frame_addrs [OF df] upd_addrs_frame])
    then show ?thesis by (simp add: c ic)
  next
    case False
    with i show ?thesis by auto
  qed
  have cf: "content_frame ip s2 s'"
    unfolding e
    by (rule content_frame_trans [OF upd_size_frame
          addrs_frame_content [OF disk_frame_addrs [OF iupdate_frame]]])
  show "content_frame ip s s'"
    using p1 p2 cf
    by (blast intro: content_frame_trans addrs_frame_content addrs_frame_trans)
  have ic: "icache s' = icache (upd_inode ip (\<lambda>i. i\<lparr>i_size := 0\<rparr>) s2)"
    unfolding e using iupdate_frame by (simp add: disk_frame_def)
  show "i_size (icache s' ip) = 0" by (simp add: ic)
  show "i_addrs (icache s' ip) j = 0" if "j < NDIRECT + 1"
    using that p1 p2 by (auto simp: ic)
qed


lemma icache_iupdate [simp]: "icache (iupdate ip s) = icache s"
  using iupdate_frame [of s ip] by (simp add: disk_frame_def)

lemma content_frame_sb: "content_frame ip s s' \<Longrightarrow> sb s' = sb s"
  by (simp add: content_frame_def fs_frame_def)

text \<open>
  An example: the file of \<open>hello_state\<close> with its last link removed, and block 100
  marked in use in the bitmap (bit 4 of byte 12 of block 58).
\<close>

definition unlinked_state :: kstate where
  "unlinked_state = hello_state
     \<lparr>disk := (\<lambda>d b. if d = 1 \<and> b = 58 then (\<lambda>k. if k = 12 then 16 else 0)
                      else disk hello_state d b),
      icache := (\<lambda>k. if k = 2 then (icache hello_state 2)\<lparr>i_nlink := 0\<rparr>
                      else icache hello_state k)\<rparr>"

text \<open>
  C4. iput waits for the inode's sleep-lock. With the lock, if the inode is valid, has
  no links and \<open>ref = 1\<close>, it runs itrunc, then clears the type, then calls iupdate, then
  clears \<open>valid\<close>, and only then releases the lock and decrements \<open>ref\<close>; when that call
  returns, the slot has \<open>ref = 0\<close>, \<open>valid = 0\<close>, type 0, size 0 and no block addresses,
  no other slot has changed, and the inode's slot on the disk has type 0. In every
  other case iput returns the state it was given with only \<open>ref\<close> decremented.
\<close>

theorem iput_spec:
  "iput ip s =
     (if i_lock (icache s ip) then Inl Blocked
      else if i_valid (icache s ip) \<noteq> 0 \<and> i_nlink (icache s ip) = 0 \<and> i_ref (icache s ip) = 1
      then
        bindk (itrunc ip (upd_inode ip (\<lambda>i. i\<lparr>i_lock := True\<rparr>) s)) (\<lambda>u s1.
          Inr ((), upd_inode ip (\<lambda>i. i\<lparr>i_ref := i_ref i - 1\<rparr>)
                     (releasesleep ip
                       (upd_inode ip (\<lambda>i. i\<lparr>i_valid := 0\<rparr>)
                         (iupdate ip (upd_inode ip (\<lambda>i. i\<lparr>i_type := 0\<rparr>) s1))))))
      else Inr ((), upd_inode ip (\<lambda>i. i\<lparr>i_ref := i_ref i - 1\<rparr>) s)) \<and>
   (\<not> i_lock (icache s ip) \<and> i_valid (icache s ip) \<noteq> 0 \<and> i_nlink (icache s ip) = 0 \<and>
    i_ref (icache s ip) = 1 \<longrightarrow>
      (\<forall>s'. iput ip s = Inr ((), s') \<longrightarrow>
         i_ref (icache s' ip) = 0 \<and> i_valid (icache s' ip) = 0 \<and> i_type (icache s' ip) = 0 \<and>
         i_size (icache s' ip) = 0 \<and> (\<forall>j<NDIRECT + 1. i_addrs (icache s' ip) j = 0) \<and>
         \<not> i_lock (icache s' ip) \<and> (\<forall>k. k \<noteq> ip \<longrightarrow> icache s' k = icache s k) \<and>
         d_type (get_dinode (disk s' (i_dev (icache s ip)) (IBLOCK (i_inum (icache s ip)) (sb s)))
                   (unat (i_inum (icache s ip)) mod IPB)) = 0))"
proof -
  have unlocked: "upd_inode ip (\<lambda>i. i\<lparr>i_ref := i_ref i - 1\<rparr>)
      (releasesleep ip (upd_inode ip (\<lambda>i. i\<lparr>i_lock := True\<rparr>) s))
      = upd_inode ip (\<lambda>i. i\<lparr>i_ref := i_ref i - 1\<rparr>) s" if "\<not> i_lock (icache s ip)"
  proof -
    have "(icache s ip)\<lparr>i_lock := False\<rparr> = icache s ip"
      using that by (cases "icache s ip") simp
    then have "(icache s ip)\<lparr>i_lock := False, i_ref := i_ref (icache s ip) - 1\<rparr> =
        (icache s ip)\<lparr>i_ref := i_ref (icache s ip) - 1\<rparr>"
      by (metis inode.update_convs(3) inode.surjective)
    then show ?thesis by (simp add: upd_inode_def releasesleep_def)
  qed
  have eq: "iput ip s =
     (if i_lock (icache s ip) then Inl Blocked
      else if i_valid (icache s ip) \<noteq> 0 \<and> i_nlink (icache s ip) = 0 \<and> i_ref (icache s ip) = 1
      then
        bindk (itrunc ip (upd_inode ip (\<lambda>i. i\<lparr>i_lock := True\<rparr>) s)) (\<lambda>u s1.
          Inr ((), upd_inode ip (\<lambda>i. i\<lparr>i_ref := i_ref i - 1\<rparr>)
                     (releasesleep ip
                       (upd_inode ip (\<lambda>i. i\<lparr>i_valid := 0\<rparr>)
                         (iupdate ip (upd_inode ip (\<lambda>i. i\<lparr>i_type := 0\<rparr>) s1))))))
      else Inr ((), upd_inode ip (\<lambda>i. i\<lparr>i_ref := i_ref i - 1\<rparr>) s))"
  proof (cases "i_lock (icache s ip)")
    case True
    then show ?thesis by (simp add: iput_def acquiresleep_def)
  next
    case False
    show ?thesis
    proof (cases "i_valid (icache s ip) \<noteq> 0 \<and> i_nlink (icache s ip) = 0 \<and>
        i_ref (icache s ip) = 1")
      case True
      with False show ?thesis
        by (simp add: iput_def acquiresleep_def Let_def bindk_def
            split: sum.splits prod.splits)
    next
      case nf: False
      with False unlocked show ?thesis
        by (auto simp: iput_def acquiresleep_def Let_def)
    qed
  qed
  have post: "i_ref (icache s' ip) = 0 \<and> i_valid (icache s' ip) = 0 \<and> i_type (icache s' ip) = 0 \<and>
         i_size (icache s' ip) = 0 \<and> (\<forall>j<NDIRECT + 1. i_addrs (icache s' ip) j = 0) \<and>
         \<not> i_lock (icache s' ip) \<and> (\<forall>k. k \<noteq> ip \<longrightarrow> icache s' k = icache s k) \<and>
         d_type (get_dinode (disk s' (i_dev (icache s ip)) (IBLOCK (i_inum (icache s ip)) (sb s)))
                   (unat (i_inum (icache s ip)) mod IPB)) = 0"
    if c: "\<not> i_lock (icache s ip)" "i_valid (icache s ip) \<noteq> 0" "i_nlink (icache s ip) = 0"
      "i_ref (icache s ip) = 1" and r: "iput ip s = Inr ((), s')" for s'
  proof -
    define s0 where "s0 = upd_inode ip (\<lambda>i. i\<lparr>i_lock := True\<rparr>) s"
    define S where "S = (\<lambda>s1. upd_inode ip (\<lambda>i. i\<lparr>i_type := 0\<rparr>) s1)"
    from r c eq have "bindk (itrunc ip s0) (\<lambda>u s1.
          Inr ((), upd_inode ip (\<lambda>i. i\<lparr>i_ref := i_ref i - 1\<rparr>)
                     (releasesleep ip (upd_inode ip (\<lambda>i. i\<lparr>i_valid := 0\<rparr>) (iupdate ip (S s1))))))
        = (Inr ((), s') :: unit result)"
      by (simp add: s0_def S_def)
    from this [unfolded bindk_eq_Inr] obtain u s1 where
      t: "itrunc ip s0 = Inr (u, s1)" and
      e': "(Inr ((), upd_inode ip (\<lambda>i. i\<lparr>i_ref := i_ref i - 1\<rparr>)
             (releasesleep ip (upd_inode ip (\<lambda>i. i\<lparr>i_valid := 0\<rparr>) (iupdate ip (S s1)))))
            :: unit result) = Inr ((), s')"
      by blast
    from e' have e: "s' = upd_inode ip (\<lambda>i. i\<lparr>i_ref := i_ref i - 1\<rparr>)
             (releasesleep ip (upd_inode ip (\<lambda>i. i\<lparr>i_valid := 0\<rparr>) (iupdate ip (S s1))))"
      by simp
    note tp = itrunc_post [OF t]
    note cf = content_frame_fields [OF tp(1)]
    have icu: "icache (iupdate ip (S s1)) = icache (S s1)"
      using iupdate_frame [of "S s1" ip] by (simp add: disk_frame_def)
    have ident: "i_dev (icache (S s1) ip) = i_dev (icache s ip)"
      "i_inum (icache (S s1) ip) = i_inum (icache s ip)" "sb (S s1) = sb s"
      using cf(1,2) [of ip] content_frame_sb [OF tp(1)] by (simp_all add: S_def s0_def)
    have dsk: "disk s' = disk (iupdate ip (S s1))"
      by (simp add: e releasesleep_def)
    have "d_type (get_dinode (disk (iupdate ip (S s1)) (i_dev (icache (S s1) ip))
             (IBLOCK (i_inum (icache (S s1) ip)) (sb (S s1))))
             (unat (i_inum (icache (S s1) ip)) mod IPB)) = i_type (icache (S s1) ip)"
      by (rule iupdate_dinode(1))
    then have d0: "d_type (get_dinode (disk s' (i_dev (icache s ip))
        (IBLOCK (i_inum (icache s ip)) (sb s))) (unat (i_inum (icache s ip)) mod IPB)) = 0"
      by (simp add: ident dsk) (simp add: S_def)
    have ref: "i_ref (icache s1 ip) = 1"
      using cf(3) [of ip] c(4) by (simp add: s0_def)
    have oth: "icache s' k = icache s k" if "k \<noteq> ip" for k
      using that cf(10) [of k] by (simp add: e releasesleep_def icu S_def s0_def)
    show ?thesis
      using tp(2) tp(3) ref oth d0
      by (simp add: e releasesleep_def icu S_def)
  qed
  from eq post show ?thesis by blast
qed


lemma iput_unlinked: "\<exists>s'. iput 2 unlinked_state = Inr ((), s')"
  by (simp add: iput_def acquiresleep_def itrunc_def bfree_def BBLOCK_def BPB_def BSIZE_def
      bread_def log_write_def releasesleep_def unlinked_state_def hello_state_def kstate0_def
      inode0_def Let_def NDIRECT_def upt_rec)

theorem iput_spec_witness:
  "(\<not> i_lock (icache unlinked_state 2) \<and> i_valid (icache unlinked_state 2) \<noteq> 0 \<and>
    i_nlink (icache unlinked_state 2) = 0 \<and> i_ref (icache unlinked_state 2) = 1) \<and>
   (\<exists>s'. iput 2 unlinked_state = Inr ((), s') \<and> i_ref (icache s' 2) = 0 \<and>
         i_type (icache s' 2) = 0 \<and> i_valid (icache s' 2) = 0) \<and>
   iput 2 hello_state = Inr ((), upd_inode 2 (\<lambda>i. i\<lparr>i_ref := i_ref i - 1\<rparr>) hello_state)"
proof -
  have c: "\<not> i_lock (icache unlinked_state 2) \<and> i_valid (icache unlinked_state 2) \<noteq> 0 \<and>
      i_nlink (icache unlinked_state 2) = 0 \<and> i_ref (icache unlinked_state 2) = 1"
    by (simp add: unlinked_state_def hello_state_def inode0_def)
  obtain s' where e: "iput 2 unlinked_state = Inr ((), s')"
    using iput_unlinked by blast
  from iput_spec [of 2 unlinked_state, THEN conjunct2, rule_format, OF c e]
  have p: "i_ref (icache s' 2) = 0 \<and> i_type (icache s' 2) = 0 \<and> i_valid (icache s' 2) = 0"
    by simp
  have h: "\<not> i_lock (icache hello_state 2)" "i_nlink (icache hello_state 2) \<noteq> 0"
    by (simp_all add: hello_state_def inode0_def)
  from iput_spec [of 2 hello_state, THEN conjunct1] h
  have "iput 2 hello_state = Inr ((), upd_inode 2 (\<lambda>i. i\<lparr>i_ref := i_ref i - 1\<rparr>) hello_state)"
    by simp
  with c e p show ?thesis by blast
qed

section \<open>Directories: dirlookup and dirlink\<close>

text \<open>
  A directory seen as the list of its entries: entry \<open>k\<close> is the \<open>sizeof_dirent\<close>
  bytes of content at offset \<open>k * sizeof_dirent\<close>. An entry matches a name when it is
  in use and namecmp finds the names equal. \<open>lookup_from\<close> is the first matching entry
  with its index, \<open>free_slot\<close> the index of the first entry not in use, or the number
  of entries. \<open>wf_dir\<close> is a directory whose size is a whole number of entries and
  whose content blocks are all there.
\<close>

definition dirent_at :: "kstate \<Rightarrow> nat \<Rightarrow> nat \<Rightarrow> byte list" where
  "dirent_at s dp k =
     map (file_byte s dp) [k * sizeof_dirent..<k * sizeof_dirent + sizeof_dirent]"

definition dirents :: "kstate \<Rightarrow> nat \<Rightarrow> byte list list" where
  "dirents s dp =
     map (dirent_at s dp) [0..<unat (i_size (icache s dp)) div sizeof_dirent]"

definition matches :: "block \<Rightarrow> byte list \<Rightarrow> bool" where
  "matches name de \<longleftrightarrow> de_inum de \<noteq> 0 \<and> namecmp name (de_name de) = 0"

fun lookup_from :: "block \<Rightarrow> byte list list \<Rightarrow> nat \<Rightarrow> (nat \<times> byte list) option" where
  "lookup_from name [] k = None"
| "lookup_from name (de # des) k =
     (if matches name de then Some (k, de) else lookup_from name des (k + 1))"

fun free_slot :: "byte list list \<Rightarrow> nat \<Rightarrow> nat" where
  "free_slot [] k = k"
| "free_slot (de # des) k = (if de_inum de = 0 then k else free_slot des (k + 1))"

definition present :: "kstate \<Rightarrow> nat \<Rightarrow> block \<Rightarrow> bool" where
  "present s dp name \<longleftrightarrow> list_ex (matches name) (dirents s dp)"

definition wf_dir :: "kstate \<Rightarrow> nat \<Rightarrow> bool" where
  "wf_dir s dp \<longleftrightarrow>
     i_type (icache s dp) = T_DIR \<and>
     unat (i_size (icache s dp)) mod sizeof_dirent = 0 \<and>
     list_all (\<lambda>bn. mapped s dp bn)
       [0..<(unat (i_size (icache s dp)) + BSIZE - 1) div BSIZE]"

lemma wf_dir_mapped:
  assumes "wf_dir s dp" and "p < unat (i_size (icache s dp))"
  shows "mapped s dp (p div BSIZE)"
proof -
  have "p div BSIZE < (unat (i_size (icache s dp)) + BSIZE - 1) div BSIZE"
  proof -
    have "p div 512 \<le> (unat (i_size (icache s dp)) - 1) div 512"
      using assms(2) by (intro div_le_mono) simp
    also have "\<dots> < (unat (i_size (icache s dp)) - 1 + 512) div 512"
      by simp
    finally show ?thesis using assms(2) by (simp add: BSIZE_def)
  qed
  with assms(1) show ?thesis
    by (simp add: wf_dir_def list_all_iff)
qed

lemma unat_dirent_off:
  assumes "k \<le> unat (sz :: uint) div sizeof_dirent"
  shows "unat (word_of_nat (k * sizeof_dirent) :: uint) = k * sizeof_dirent"
proof -
  have "k * sizeof_dirent \<le> unat sz"
    using assms by (simp add: sizeof_dirent_def DIRSIZ_def)
  also have "\<dots> < 2 ^ 32"
    using unsigned_less [of sz, where 'a = nat] by simp
  finally show ?thesis
    by (simp add: unat_of_nat del: of_nat_mult)
qed

lemma readi_dirent:
  assumes "wf_dir s dp" and "k < unat (i_size (icache s dp)) div sizeof_dirent"
  shows "readi dp (word_of_nat (k * sizeof_dirent)) (word_of_nat sizeof_dirent) s =
           Inr ((word_of_nat sizeof_dirent, dirent_at s dp k), s)"
proof -
  define sz where "sz = i_size (icache s dp)"
  define off :: uint where "off = word_of_nat (k * sizeof_dirent)"
  have uo: "unat off = k * 16"
    using unat_dirent_off [of k sz] assms(2)
    by (simp add: off_def sz_def sizeof_dirent_def DIRSIZ_def del: of_nat_mult)
  have le: "k * 16 + 16 \<le> unat sz"
    using assms(2) by (simp add: sz_def sizeof_dirent_def DIRSIZ_def)
  have lt: "unat sz < 2 ^ 32"
    using unsigned_less [of sz, where 'a = nat] by simp
  have u16: "unat (off + 16) = k * 16 + 16"
    using le lt uo by (simp add: unat_word_ariths)
  have c1: "\<not> sz < off" using le uo by (simp add: word_less_nat_alt)
  have c2: "\<not> off + 16 < off" using u16 uo by (simp add: word_less_nat_alt)
  have c3: "\<not> sz < off + 16" using le u16 by (simp add: word_less_nat_alt)
  have ty: "i_type (icache s dp) \<noteq> T_DEV"
    using assms(1) by (simp add: wf_dir_def T_DIR_def T_DEV_def)
  have m: "\<forall>p. unat off \<le> p \<and> p < unat off + unat ((16 :: uint) - 0) \<longrightarrow>
      mapped s dp (p div BSIZE)"
    using wf_dir_mapped [OF assms(1)] le uo by (simp add: sz_def)
  have "readi_loop dp 0 off 16 s =
      Inr (map (file_byte s dp) [unat off..<unat off + unat ((16 :: uint) - 0)], s)"
    by (rule readi_loop_mapped [OF _ _ m]) (use le lt uo in simp_all)
  then have "readi_loop dp 0 off 16 s = Inr (dirent_at s dp k, s)"
    by (simp add: uo dirent_at_def sizeof_dirent_def DIRSIZ_def)
  then have "readi dp off 16 s = Inr ((16, dirent_at s dp k), s)"
    using ty c1 c2 c3 by (simp add: readi_def Let_def sz_def [symmetric])
  then show ?thesis
    by (simp add: off_def sizeof_dirent_def DIRSIZ_def del: of_nat_mult)
qed

lemma dirents_drop:
  assumes "k < unat (i_size (icache s dp)) div sizeof_dirent"
  shows "drop k (dirents s dp) = dirent_at s dp k # drop (Suc k) (dirents s dp)"
  using assms Cons_nth_drop_Suc [of k "dirents s dp"] by (simp add: dirents_def)

lemma dirent_off_step:
  "(word_of_nat (k * sizeof_dirent) :: uint) + word_of_nat sizeof_dirent =
     word_of_nat (Suc k * sizeof_dirent)"
  by simp

lemma dirent_off_less:
  assumes "unat (sz :: uint) mod sizeof_dirent = 0" and "k \<le> unat sz div sizeof_dirent"
  shows "(word_of_nat (k * sizeof_dirent) :: uint) < sz \<longleftrightarrow> k < unat sz div sizeof_dirent"
proof -
  have "unat sz = (unat sz div 16) * 16"
    using assms(1) by (simp add: sizeof_dirent_def DIRSIZ_def mod_eq_0_iff_dvd)
  then show ?thesis
    using unat_dirent_off [OF assms(2)]
    by (auto simp: word_less_nat_alt sizeof_dirent_def DIRSIZ_def simp del: of_nat_mult)
qed

text \<open>The loop of dirlookup, run on a well-formed directory, is the search of the list.\<close>

lemma dirlookup_loop_entries:
  assumes "wf_dir s dp" and "k \<le> unat (i_size (icache s dp)) div sizeof_dirent"
  shows "dirlookup_loop dp name (word_of_nat (k * sizeof_dirent)) s =
     Some (case lookup_from name (drop k (dirents s dp)) k of
             None \<Rightarrow> Inr (None, s)
           | Some (j, de) \<Rightarrow>
               bindk (iget (i_dev (icache s dp)) (ucast (de_inum de)) s) (\<lambda>ip s.
                 Inr (Some (ip, word_of_nat (j * sizeof_dirent)), s)))"
  using assms(2)
proof (induction "unat (i_size (icache s dp)) div sizeof_dirent - k" arbitrary: k)
  case 0
  then have k: "k = unat (i_size (icache s dp)) div sizeof_dirent" by simp
  have "\<not> (word_of_nat (k * sizeof_dirent) :: uint) < i_size (icache s dp)"
    using dirent_off_less [of "i_size (icache s dp)" k] assms(1) k
    by (simp add: wf_dir_def)
  moreover have "drop k (dirents s dp) = []"
    by (simp add: k dirents_def)
  ultimately show ?case
    by (subst dirlookup_loop.simps) simp
next
  case (Suc d)
  then have k: "k < unat (i_size (icache s dp)) div sizeof_dirent" by simp
  have lt: "(word_of_nat (k * sizeof_dirent) :: uint) < i_size (icache s dp)"
    using dirent_off_less [of "i_size (icache s dp)" k] assms(1) k
    by (simp add: wf_dir_def)
  have ih: "dirlookup_loop dp name (word_of_nat (Suc k * sizeof_dirent)) s =
     Some (case lookup_from name (drop (Suc k) (dirents s dp)) (Suc k) of
             None \<Rightarrow> Inr (None, s)
           | Some (j, de) \<Rightarrow>
               bindk (iget (i_dev (icache s dp)) (ucast (de_inum de)) s) (\<lambda>ip s.
                 Inr (Some (ip, word_of_nat (j * sizeof_dirent)), s)))"
    using Suc.hyps(1) [of "Suc k"] Suc.hyps(2) k by simp
  show ?case
    apply (subst dirlookup_loop.simps)
    apply (simp only: lt if_True readi_dirent [OF assms(1) k] sum.case prod.case
        dirent_off_step ih dirents_drop [OF k] lookup_from.simps matches_def)
    apply (simp add: matches_def)
    done
qed

lemma dirlink_scan_entries:
  assumes "wf_dir s dp" and "k \<le> unat (i_size (icache s dp)) div sizeof_dirent"
  shows "dirlink_scan dp (word_of_nat (k * sizeof_dirent)) s =
     Some (Inr (word_of_nat (free_slot (drop k (dirents s dp)) k * sizeof_dirent), s))"
  using assms(2)
proof (induction "unat (i_size (icache s dp)) div sizeof_dirent - k" arbitrary: k)
  case 0
  then have k: "k = unat (i_size (icache s dp)) div sizeof_dirent" by simp
  have "\<not> (word_of_nat (k * sizeof_dirent) :: uint) < i_size (icache s dp)"
    using dirent_off_less [of "i_size (icache s dp)" k] assms(1) k
    by (simp add: wf_dir_def)
  moreover have "drop k (dirents s dp) = []"
    by (simp add: k dirents_def)
  ultimately show ?case
    by (subst dirlink_scan.simps) simp
next
  case (Suc d)
  then have k: "k < unat (i_size (icache s dp)) div sizeof_dirent" by simp
  have lt: "(word_of_nat (k * sizeof_dirent) :: uint) < i_size (icache s dp)"
    using dirent_off_less [of "i_size (icache s dp)" k] assms(1) k
    by (simp add: wf_dir_def)
  have ih: "dirlink_scan dp (word_of_nat (Suc k * sizeof_dirent)) s =
     Some (Inr (word_of_nat (free_slot (drop (Suc k) (dirents s dp)) (Suc k) * sizeof_dirent), s))"
    using Suc.hyps(1) [of "Suc k"] Suc.hyps(2) k by simp
  show ?case
    apply (subst dirlink_scan.simps)
    apply (simp only: lt if_True readi_dirent [OF assms(1) k] sum.case prod.case
        dirent_off_step ih dirents_drop [OF k] free_slot.simps)
    apply simp
    done
qed

lemma bindk_assoc: "bindk (bindk m f) g = bindk m (\<lambda>x s. bindk (f x s) g)"
  by (cases m) (auto simp: bindk_def)

lemma lookup_from_None:
  "lookup_from name des k = None \<longleftrightarrow> \<not> list_ex (matches name) des"
  by (induction des arbitrary: k) auto

lemma free_slot_first:
  "k \<le> free_slot des k \<and> free_slot des k \<le> k + length des \<and>
   (\<forall>j. j < free_slot des k - k \<longrightarrow> de_inum (des ! j) \<noteq> 0) \<and>
   (free_slot des k < k + length des \<longrightarrow> de_inum (des ! (free_slot des k - k)) = 0)"
proof (induction des arbitrary: k)
  case Nil
  show ?case by simp
next
  case (Cons de des)
  show ?case
  proof (cases "de_inum de = 0")
    case True
    then show ?thesis by simp
  next
    case False
    note ih = Cons.IH [of "Suc k"]
    have a: "free_slot (de # des) k = free_slot des (Suc k)"
      using False by simp
    have "de_inum ((de # des) ! j) \<noteq> 0" if "j < free_slot des (Suc k) - k" for j
    proof (cases j)
      case 0
      with False show ?thesis by simp
    next
      case (Suc j')
      with that have "j' < free_slot des (Suc k) - Suc k" by simp
      with ih Suc show ?thesis by simp
    qed
    moreover have "de_inum ((de # des) ! (free_slot des (Suc k) - k)) = 0"
      if "free_slot des (Suc k) < k + length (de # des)"
    proof -
      from ih have "Suc k \<le> free_slot des (Suc k)" by (rule conjunct1)
      then have "free_slot des (Suc k) - k = Suc (free_slot des (Suc k) - Suc k)"
        by linarith
      with that ih show ?thesis by simp
    qed
    ultimately show ?thesis
      using ih by (simp only: a) auto
  qed
qed

text \<open>An example: slot 3 holds the root directory, with four entries in block 101:
  \<open>.\<close> and \<open>..\<close> for inode 1, an entry not in use, and \<open>f\<close> for inode 2.\<close>

definition dir_state :: kstate where
  "dir_state = hello_state
     \<lparr>disk := (\<lambda>d b. if d = 1 \<and> b = 101
         then (\<lambda>k. if k = 0 then 1 else if k = 2 then 46
                   else if k = 16 then 1 else if k = 18 then 46 else if k = 19 then 46
                   else if k = 48 then 2 else if k = 50 then 102 else 0)
         else disk hello_state d b),
      icache := (\<lambda>k. if k = 3
         then inode0\<lparr>i_dev := 1, i_inum := 1, i_ref := 1, i_lock := True, i_valid := 1,
                i_type := T_DIR, i_nlink := 1, i_size := 64,
                i_addrs := (\<lambda>j. if j = 0 then 101 else 0)\<rparr>
         else icache hello_state k)\<rparr>"

text \<open>
  On a directory whose size is a whole number of entries and whose blocks are all
  there, dirlink looks for the first entry in use with this name. If there is one, it
  calls iget on its inode, releases it with iput, and returns -1. If there is none, it
  writes the new entry with writei at the offset of the first entry whose inumber is
  0, or at the end of the directory when every entry is in use, and returns 0; it
  panics if writei does not write the whole entry. So a call that returns has returned
  -1 when the name was present and 0 when it was not.
\<close>

lemma dirlink_wf:
  assumes "wf_dir s dp"
  shows "dirlink dp name inum s =
           (case lookup_from name (dirents s dp) 0 of
              Some (j, de) \<Rightarrow>
                bindk (iget (i_dev (icache s dp)) (ucast (de_inum de)) s) (\<lambda>ip s.
                bindk (iput ip s) (\<lambda>u s. Inr (- 1, s)))
            | None \<Rightarrow>
                bindk (writei dp (new_dirent name inum)
                         (word_of_nat (free_slot (dirents s dp) 0 * sizeof_dirent))
                         (word_of_nat sizeof_dirent) s) (\<lambda>r s.
                  if r \<noteq> word_of_nat sizeof_dirent then panic ''dirlink'' else Inr (0, s))) \<and>
         (lookup_from name (dirents s dp) 0 = None \<longleftrightarrow> \<not> present s dp name) \<and>
         free_slot (dirents s dp) 0 \<le> length (dirents s dp) \<and>
         (\<forall>j. j < free_slot (dirents s dp) 0 \<longrightarrow> de_inum (dirents s dp ! j) \<noteq> 0) \<and>
         (free_slot (dirents s dp) 0 < length (dirents s dp) \<longrightarrow>
            de_inum (dirents s dp ! free_slot (dirents s dp) 0) = 0) \<and>
         length (dirents s dp) * sizeof_dirent = unat (i_size (icache s dp)) \<and>
         (\<forall>r s'. dirlink dp name inum s = Inr (r, s') \<longrightarrow>
            (r = - 1 \<longleftrightarrow> present s dp name) \<and> (r \<noteq> - 1 \<longrightarrow> r = 0) \<and>
            (r = 0 \<longrightarrow>
               writei dp (new_dirent name inum)
                 (word_of_nat (free_slot (dirents s dp) 0 * sizeof_dirent))
                 (word_of_nat sizeof_dirent) s = Inr (word_of_nat sizeof_dirent, s')))"
proof -
  have ty: "i_type (icache s dp) = T_DIR"
    using assms by (simp add: wf_dir_def)
  have lk: "dirlookup_loop dp name 0 s =
     Some (case lookup_from name (dirents s dp) 0 of
             None \<Rightarrow> Inr (None, s)
           | Some (j, de) \<Rightarrow>
               bindk (iget (i_dev (icache s dp)) (ucast (de_inum de)) s) (\<lambda>ip s.
                 Inr (Some (ip, word_of_nat (j * sizeof_dirent)), s)))"
    using dirlookup_loop_entries [OF assms, of 0 name] by simp
  have sc: "dirlink_scan dp 0 s =
     Some (Inr (word_of_nat (free_slot (dirents s dp) 0 * sizeof_dirent), s))"
    using dirlink_scan_entries [OF assms, of 0] by simp
  have eq: "dirlink dp name inum s =
           (case lookup_from name (dirents s dp) 0 of
              Some (j, de) \<Rightarrow>
                bindk (iget (i_dev (icache s dp)) (ucast (de_inum de)) s) (\<lambda>ip s.
                bindk (iput ip s) (\<lambda>u s. Inr (- 1, s)))
            | None \<Rightarrow>
                bindk (writei dp (new_dirent name inum)
                         (word_of_nat (free_slot (dirents s dp) 0 * sizeof_dirent))
                         (word_of_nat sizeof_dirent) s) (\<lambda>r s.
                  if r \<noteq> word_of_nat sizeof_dirent then panic ''dirlink'' else Inr (0, s)))"
  proof (cases "lookup_from name (dirents s dp) 0")
    case None
    then show ?thesis
      by (simp add: dirlink_def dirlookup_def ty lk sc)
  next
    case (Some a)
    then show ?thesis
      by (cases a) (simp add: dirlink_def dirlookup_def ty lk bindk_assoc)
  qed
  have pr: "lookup_from name (dirents s dp) 0 = None \<longleftrightarrow> \<not> present s dp name"
    by (simp add: lookup_from_None present_def)
  note fs = free_slot_first [of 0 "dirents s dp"]
  have len: "length (dirents s dp) * sizeof_dirent = unat (i_size (icache s dp))"
    using assms by (simp add: dirents_def wf_dir_def mod_eq_0_iff_dvd)
  have ret: "(r = - 1 \<longleftrightarrow> present s dp name) \<and> (r \<noteq> - 1 \<longrightarrow> r = 0) \<and>
            (r = 0 \<longrightarrow>
               writei dp (new_dirent name inum)
                 (word_of_nat (free_slot (dirents s dp) 0 * sizeof_dirent))
                 (word_of_nat sizeof_dirent) s = Inr (word_of_nat sizeof_dirent, s'))"
    if "dirlink dp name inum s = (Inr (r, s') :: cint result)" for r s'
  proof (cases "lookup_from name (dirents s dp) 0")
    case None
    with that [unfolded eq] obtain r1 s1 where
      w: "writei dp (new_dirent name inum)
            (word_of_nat (free_slot (dirents s dp) 0 * sizeof_dirent))
            (word_of_nat sizeof_dirent) s = Inr (r1, s1)" and
      r: "(if r1 \<noteq> word_of_nat sizeof_dirent then panic ''dirlink'' else Inr (0, s1)) =
            (Inr (r, s') :: cint result)"
      by (auto simp: bindk_eq_Inr)
    from r have "r1 = word_of_nat sizeof_dirent \<and> r = 0 \<and> s1 = s'"
      by (auto split: if_splits)
    with w None pr show ?thesis by simp
  next
    case (Some a)
    obtain j de where a: "a = (j, de)" by (cases a)
    from that [unfolded eq] Some a have "r = - 1"
      by (auto simp: bindk_eq_Inr)
    with Some pr show ?thesis by auto
  qed
  from eq pr fs len ret show ?thesis
    by (simp only: add_0 diff_zero) blast
qed

lemma dir_state_wf: "wf_dir dir_state 3"
  by (simp add: wf_dir_def dir_state_def hello_state_def kstate0_def inode0_def
      sizeof_dirent_def DIRSIZ_def BSIZE_def mapped_def bmap_ro_def MAXFILE_def NDIRECT_def
      NINDIRECT_def T_DIR_def)

lemma dir_state_dirents:
  "dirents dir_state 3 =
     [[1, 0, 46, 0, 0, 0, 0, 0, 0, 0, 0, 0, 0, 0, 0, 0],
      [1, 0, 46, 46, 0, 0, 0, 0, 0, 0, 0, 0, 0, 0, 0, 0],
      [0, 0, 0, 0, 0, 0, 0, 0, 0, 0, 0, 0, 0, 0, 0, 0],
      [2, 0, 102, 0, 0, 0, 0, 0, 0, 0, 0, 0, 0, 0, 0, 0]]"
  by (simp add: dirents_def dirent_at_def file_byte_def bmap_ro_def dir_state_def
      hello_state_def kstate0_def inode0_def sizeof_dirent_def DIRSIZ_def BSIZE_def
      NDIRECT_def upt_rec)


lemma strncmp_numeral:
  "strncmp p q (numeral n) =
     (if p 0 \<noteq> 0 \<and> p 0 = q 0 then strncmp (\<lambda>k. p (Suc k)) (\<lambda>k. q (Suc k)) (pred_numeral n)
      else uint (p 0) - uint (q 0))"
  by (simp add: numeral_eq_Suc)

lemma dir_state_absent: "lookup_from (mem_of [97]) (dirents dir_state 3) 0 = None"
  unfolding dir_state_dirents
  by (simp add: matches_def de_inum_def de_name_def namecmp_def get16_def
      mem_of_def deref_def DIRSIZ_def strncmp_numeral)

lemma dir_state_present:
  "lookup_from (mem_of [102]) (dirents dir_state 3) 0 =
     Some (3, [2, 0, 102, 0, 0, 0, 0, 0, 0, 0, 0, 0, 0, 0, 0, 0])"
  unfolding dir_state_dirents
  by (simp add: matches_def de_inum_def de_name_def namecmp_def get16_def
      mem_of_def deref_def DIRSIZ_def strncmp_numeral)

lemma dir_state_slot: "free_slot (dirents dir_state 3) 0 = 2"
  by (simp add: dir_state_dirents de_inum_def get16_def mem_of_def deref_def)

lemma dir_state_writei:
  "\<exists>s'. writei 3 (new_dirent (mem_of [97]) 7) 32 16 dir_state = Inr (16, s')"
  by (simp add: writei_def writei_loop.simps dir_state_def hello_state_def kstate0_def
      inode0_def bmap_def bread_def Let_def T_DIR_def T_DEV_def NDIRECT_def NINDIRECT_def
      MAXFILE_def BSIZE_def)

lemma dir_state_release:
  "\<exists>s'. bindk (iget (i_dev (icache dir_state 3))
                (ucast (de_inum [2, 0, 102, 0, 0, 0, 0, 0, 0, 0, 0, 0, 0, 0, 0, 0])) dir_state)
          (\<lambda>ip s. bindk (iput ip s) (\<lambda>u s. Inr (- 1 :: cint, s))) = Inr (- 1, s')"
  by (simp add: iget_def iget_scan.simps iput_def acquiresleep_def releasesleep_def
      dir_state_def hello_state_def kstate0_def inode0_def de_inum_def get16_def mem_of_def
      deref_def NINODE_def word_sless_alt Let_def)

lemma dirlink_examples:
  "wf_dir dir_state 3 \<and>
   \<not> present dir_state 3 (mem_of [97]) \<and>
   (\<exists>s'. dirlink 3 (mem_of [97]) 7 dir_state = Inr (0, s') \<and>
         writei 3 (new_dirent (mem_of [97]) 7) 32 16 dir_state = Inr (16, s')) \<and>
   present dir_state 3 (mem_of [102]) \<and>
   (\<exists>s'. dirlink 3 (mem_of [102]) 7 dir_state = Inr (- 1, s'))"
proof -
  note wf = dir_state_wf
  obtain s1 where w: "writei 3 (new_dirent (mem_of [97]) 7) 32 16 dir_state = Inr (16, s1)"
    using dir_state_writei by blast
  have a: "dirlink 3 (mem_of [97]) 7 dir_state = Inr (0, s1)"
    using dirlink_wf [OF wf, of "mem_of [97]" 7, THEN conjunct1] w
    by (simp add: dir_state_absent dir_state_slot sizeof_dirent_def DIRSIZ_def)
  have np: "\<not> present dir_state 3 (mem_of [97])"
    using dirlink_wf [OF wf, of "mem_of [97]" 7, THEN conjunct2, THEN conjunct1]
    by (simp add: dir_state_absent)
  obtain s2 where b: "dirlink 3 (mem_of [102]) 7 dir_state = Inr (- 1, s2)"
    using dirlink_wf [OF wf, of "mem_of [102]" 7, THEN conjunct1] dir_state_release
    by (auto simp: dir_state_present)
  have p: "present dir_state 3 (mem_of [102])"
    using dirlink_wf [OF wf, of "mem_of [102]" 7, THEN conjunct2, THEN conjunct1]
    by (simp add: dir_state_present)
  from wf a w np b p show ?thesis by blast
qed

text \<open>The entry dirlink writes: the inumber in its first two bytes, then the name up to
  its NUL, padded with NULs to \<open>DIRSIZ\<close> bytes, and cut there without a NUL if longer.\<close>

lemma strncpy_length: "length (strncpy t n) = n"
  by (induction n arbitrary: t) simp_all

lemma strncpy_nth:
  "k < n \<Longrightarrow> strncpy t n ! k = (if \<forall>j\<le>k. t j \<noteq> 0 then t k else 0)"
proof (induction n arbitrary: t k)
  case 0
  then show ?case by simp
next
  case (Suc n)
  show ?case
  proof (cases "t 0 = 0")
    case True
    have "replicate (Suc n) (0 :: byte) ! k = 0"
      using Suc.prems by (simp only: nth_replicate)
    with True show ?thesis by auto
  next
    case False
    show ?thesis
    proof (cases k)
      case 0
      with False show ?thesis by simp
    next
      case (Suc k')
      with Suc.prems have "k' < n" by simp
      from Suc.IH [OF this, of "\<lambda>k. t (Suc k)"] have
        "strncpy (\<lambda>k. t (Suc k)) n ! k' = (if \<forall>j\<le>k'. t (Suc j) \<noteq> 0 then t (Suc k') else 0)" .
      moreover have "(\<forall>j\<le>Suc k'. t j \<noteq> 0) \<longleftrightarrow> (\<forall>j\<le>k'. t (Suc j) \<noteq> 0)"
      proof
        assume "\<forall>j\<le>Suc k'. t j \<noteq> 0"
        then show "\<forall>j\<le>k'. t (Suc j) \<noteq> 0" by simp
      next
        assume a: "\<forall>j\<le>k'. t (Suc j) \<noteq> 0"
        show "\<forall>j\<le>Suc k'. t j \<noteq> 0"
        proof (intro allI impI)
          fix j assume "j \<le> Suc k'"
          then show "t j \<noteq> 0" using a False by (cases j) simp_all
        qed
      qed
      ultimately show ?thesis using False Suc by simp
    qed
  qed
qed

lemma new_dirent_bytes:
  "de_inum (map (new_dirent name inum) [0..<sizeof_dirent]) = ucast inum"
  "k < DIRSIZ \<Longrightarrow>
     de_name (map (new_dirent name inum) [0..<sizeof_dirent]) k =
       (if \<forall>j\<le>k. name j \<noteq> 0 then name k else 0)"
proof -
  define b where "b = memmove (\<lambda>k. 0) 2 (mem_of (strncpy name DIRSIZ)) DIRSIZ"
  have nd: "new_dirent name inum = put16 b 0 (ucast inum)"
    by (simp add: new_dirent_def b_def)
  have m: "mem_of (map (new_dirent name inum) [0..<sizeof_dirent]) j = new_dirent name inum j"
    if "j < 16" for j
    using that by (simp add: mem_of_def deref_def sizeof_dirent_def DIRSIZ_def)
  have "get16 (mem_of (map (new_dirent name inum) [0..<sizeof_dirent])) 0 =
      get16 (put16 b 0 (ucast inum)) 0"
    by (rule get16_cong) (simp_all add: mem_of_def deref_def sizeof_dirent_def DIRSIZ_def nd)
  then show "de_inum (map (new_dirent name inum) [0..<sizeof_dirent]) = ucast inum"
    by (simp add: de_inum_def)
  assume k: "k < DIRSIZ"
  then have k14: "k < 14" by (simp add: DIRSIZ_def)
  have "de_name (map (new_dirent name inum) [0..<sizeof_dirent]) k = new_dirent name inum (2 + k)"
    using k14 by (simp add: de_name_def m)
  also have "\<dots> = b (2 + k)"
    by (simp add: nd put16_other)
  also have "\<dots> = strncpy name DIRSIZ ! k"
    using k by (simp add: b_def memmove_def mem_of_def deref_def strncpy_length)
  also have "\<dots> = (if \<forall>j\<le>k. name j \<noteq> 0 then name k else 0)"
    by (rule strncpy_nth [OF k])
  finally show "de_name (map (new_dirent name inum) [0..<sizeof_dirent]) k =
       (if \<forall>j\<le>k. name j \<noteq> 0 then name k else 0)" .
qed

lemma dir_state_dot:
  "lookup_from (mem_of [46]) (dirents dir_state 3) 0 =
     Some (0, [1, 0, 46, 0, 0, 0, 0, 0, 0, 0, 0, 0, 0, 0, 0, 0])"
  unfolding dir_state_dirents
  by (simp add: matches_def de_inum_def de_name_def namecmp_def get16_def
      mem_of_def deref_def DIRSIZ_def strncmp_numeral)

lemma dir_state_iget_dot:
  "iget (i_dev (icache dir_state 3))
     (ucast (de_inum [1, 0, 46, 0, 0, 0, 0, 0, 0, 0, 0, 0, 0, 0, 0, 0])) dir_state =
   Inr (3, upd_inode 3 (\<lambda>i. i\<lparr>i_ref := i_ref i + 1\<rparr>) dir_state)"
  by (simp add: iget_def iget_scan.simps dir_state_def hello_state_def kstate0_def inode0_def
      de_inum_def get16_def mem_of_def deref_def NINODE_def word_sless_alt upd_inode_def
      fun_eq_iff)

text \<open>
  C6. A dirlink that finds the name must release the inode found and return -1. For
  the name \<open>.\<close> in a directory that the caller holds locked, as every caller of dirlink
  does, it cannot: the entry names the directory itself, iget returns the directory's
  own slot, and iput waits for the sleep-lock its caller holds. Here slot 3 is the root
  directory, inode 1, locked; \<open>.\<close> is its first entry and names inode 1.
\<close>

theorem dirlink_dot_blocked:
  "i_type (icache dir_state 3) = T_DIR \<and> i_inum (icache dir_state 3) = 1 \<and>
   i_lock (icache dir_state 3) \<and> present dir_state 3 (mem_of [46]) \<and>
   dirlookup 3 (mem_of [46]) dir_state =
     Inr (Some (3, 0), upd_inode 3 (\<lambda>i. i\<lparr>i_ref := i_ref i + 1\<rparr>) dir_state) \<and>
   iput 3 (upd_inode 3 (\<lambda>i. i\<lparr>i_ref := i_ref i + 1\<rparr>) dir_state) = Inl Blocked \<and>
   dirlink 3 (mem_of [46]) 7 dir_state = Inl Blocked"
proof -
  have a: "i_type (icache dir_state 3) = T_DIR" "i_inum (icache dir_state 3) = 1"
    "i_lock (icache dir_state 3)"
    by (simp_all add: dir_state_def)
  have p: "present dir_state 3 (mem_of [46])"
    using dir_state_dot lookup_from_None [of "mem_of [46]" "dirents dir_state 3" 0]
    by (simp add: present_def)
  have l: "dirlookup 3 (mem_of [46]) dir_state =
      Inr (Some (3, 0), upd_inode 3 (\<lambda>i. i\<lparr>i_ref := i_ref i + 1\<rparr>) dir_state)"
    using dirlookup_loop_entries [OF dir_state_wf, of 0 "mem_of [46]"]
    by (simp add: dirlookup_def a(1) dir_state_dot dir_state_iget_dot)
  have i: "iput 3 (upd_inode 3 (\<lambda>i. i\<lparr>i_ref := i_ref i + 1\<rparr>) dir_state) = Inl Blocked"
    by (simp add: iput_def acquiresleep_def a(3))
  have d: "dirlink 3 (mem_of [46]) 7 dir_state = Inl Blocked"
    by (simp add: dirlink_def l i)
  from a p l i d show ?thesis by simp
qed

section \<open>Writing through a handle: filewrite\<close>

text \<open>
  The log between two states has only grown, and only by block writes: no transaction
  was opened or closed.
\<close>

fun is_write :: "event \<Rightarrow> bool" where
  "is_write (LogWrite d b) = True"
| "is_write BeginOp = False"
| "is_write EndOp = False"

definition log_ext :: "kstate \<Rightarrow> kstate \<Rightarrow> bool" where
  "log_ext s s' \<longleftrightarrow> (\<exists>ws. oplog s' = oplog s @ ws \<and> list_all is_write ws)"

text \<open>
  The chunks of a write of \<open>k\<close> bytes, in the spec's words: at most
  \<open>((MAXOPBLOCKS - 4) / 2) * BSIZE\<close> bytes each.
\<close>

definition chunk_max :: nat where
  "chunk_max = nat (((MAXOPBLOCKS - 4) div 2) * int BSIZE)"

function chunk_sizes :: "nat \<Rightarrow> nat list" where
  "chunk_sizes k =
     (if k = 0 then [] else min k chunk_max # chunk_sizes (k - min k chunk_max))"
  by pat_completeness auto
termination
  by (relation "measure (\<lambda>k. k)")
    (auto simp: chunk_max_def MAXOPBLOCKS_def BSIZE_def min_def)

declare chunk_sizes.simps [simp del]

text \<open>
  One chunk, in the spec's words: open a transaction, lock, writei, advance the offset
  if the count is positive, unlock, close the transaction. It gives the count of writei.
\<close>

definition write_chunk :: "nat \<Rightarrow> block \<Rightarrow> cint \<Rightarrow> kstate \<Rightarrow> cint result" where
  "write_chunk f src c s =
     (let s = begin_op s
      in bindk (ilock (f_ip (ftable s f)) s) (\<lambda>u s.
         bindk (writei (f_ip (ftable s f)) src (f_off (ftable s f)) c s) (\<lambda>r s.
           (let s = (if 0 <s r then upd_file f (\<lambda>x. x\<lparr>f_off := f_off x + r\<rparr>) s else s)
            in bindk (iunlock (f_ip (ftable s f)) s) (\<lambda>u s. Inr (r, end_op s))))))"

text \<open>
  The chunks one after the other, from \<open>i\<close> bytes written: stop at a failed write, panic
  at a short one. It gives the number of bytes written.
\<close>

fun run_chunks :: "nat \<Rightarrow> block \<Rightarrow> nat \<Rightarrow> nat list \<Rightarrow> kstate \<Rightarrow> nat result" where
  "run_chunks f addr i [] s = Inr (i, s)"
| "run_chunks f addr i (c # cs) s =
     bindk (write_chunk f (\<lambda>k. addr (k + i)) (word_of_nat c) s) (\<lambda>r s.
       if r <s 0 then Inr (i, s)
       else if r \<noteq> word_of_nat c then panic ''short filewrite''
       else run_chunks f addr (i + c) cs s)"

subsection \<open>The log\<close>

lemma log_ext_refl [simp]: "log_ext s s"
  by (simp add: log_ext_def)

lemma log_ext_trans: "log_ext s s1 \<Longrightarrow> log_ext s1 s2 \<Longrightarrow> log_ext s s2"
  unfolding log_ext_def
proof -
  assume "\<exists>ws. oplog s1 = oplog s @ ws \<and> list_all is_write ws"
    and "\<exists>ws. oplog s2 = oplog s1 @ ws \<and> list_all is_write ws"
  then obtain ws vs where "oplog s1 = oplog s @ ws" "list_all is_write ws"
    "oplog s2 = oplog s1 @ vs" "list_all is_write vs" by blast
  then have "oplog s2 = oplog s @ (ws @ vs) \<and> list_all is_write (ws @ vs)" by simp
  then show "\<exists>ws. oplog s2 = oplog s @ ws \<and> list_all is_write ws" by blast
qed

lemma log_ext_same: "oplog s' = oplog s \<Longrightarrow> log_ext s s'"
  by (simp add: log_ext_def)

lemma log_write_ext [simp]: "log_ext s (log_write d b data s)"
  by (simp add: log_ext_def log_write_def)

lemma bzero_ext [simp]: "log_ext s (bzero d b s)"
  by (simp add: bzero_def Let_def)

lemma upd_inode_oplog [simp]: "oplog (upd_inode ip g s) = oplog s"
  by (simp add: upd_inode_def)

lemma upd_file_oplog [simp]: "oplog (upd_file f g s) = oplog s"
  by (simp add: upd_file_def)

lemma upd_inode_ext [simp]: "log_ext s (upd_inode ip g s)"
  by (simp add: log_ext_same)

lemma iupdate_ext [simp]: "log_ext s (iupdate ip s)"
  by (simp add: iupdate_def Let_def)

lemma balloc_from_ext: "balloc_from d b s = Inr (r, s') \<Longrightarrow> log_ext s s'"
proof (induction d b s rule: balloc_from.induct)
  case (1 d b s)
  from "1.prems" show ?case
    apply (subst (asm) balloc_from.simps)
    apply (simp add: Let_def split: if_splits option.splits)
     apply (erule "1.IH" [rotated -1]; simp)
    apply (auto intro: log_ext_trans [OF log_write_ext bzero_ext])
    done
qed

lemma balloc_ext: "balloc d s = Inr (r, s') \<Longrightarrow> log_ext s s'"
  unfolding balloc_def by (rule balloc_from_ext)

lemma bmap_ext: "bmap ip bn s = Inr (r, s') \<Longrightarrow> log_ext s s'"
  unfolding bmap_def
  by (auto simp: Let_def bindk_eq_Inr split: if_splits
      dest!: balloc_ext
      intro: log_ext_trans [OF _ upd_inode_ext] log_ext_trans [OF _ log_write_ext]
             log_ext_trans)

lemma writei_loop_ext:
  "writei_loop ip src tot off n s = Inr (r, s') \<Longrightarrow> log_ext s s'"
proof (induction ip src tot off n s rule: writei_loop.induct)
  case (1 ip src tot off n s)
  show ?case
  proof (cases "tot < n")
    case True
    define m where "m = min (n - tot) (word_of_nat BSIZE - off mod word_of_nat BSIZE)"
    from True "1.prems" obtain addr s1 where
      b: "bmap ip (off div word_of_nat BSIZE) s = Inr (addr, s1)" and
      r: "writei_loop ip (\<lambda>k. src (k + unat m)) (tot + m) (off + m) n
            (log_write (i_dev (icache s1 ip)) addr
               (memmove (bread (i_dev (icache s1 ip)) addr s1)
                  (unat (off mod word_of_nat BSIZE)) src (unat m)) s1)
          = Inr (r, s')"
      by (subst (asm) writei_loop.simps) (auto simp: Let_def bindk_eq_Inr m_def)
    have "log_ext s1 s'"
      using "1.IH" [OF True b refl refl refl refl refl r [unfolded m_def]]
        log_write_ext log_ext_trans by blast
    with bmap_ext [OF b] show ?thesis
      by (rule log_ext_trans)
  next
    case False
    with "1.prems" show ?thesis
      by (subst (asm) writei_loop.simps) simp
  qed
qed

lemma writei_ext: "writei ip src off n s = Inr (r, s') \<Longrightarrow> log_ext s s'"
  unfolding writei_def
  by (auto simp: Let_def bindk_eq_Inr split: if_splits option.splits
      dest!: writei_loop_ext
      intro: log_ext_trans [OF _ iupdate_ext] log_ext_trans [OF _ upd_inode_ext] log_ext_trans)

lemma ilock_ext: "ilock ip s = Inr (r, s') \<Longrightarrow> log_ext s s'"
  unfolding ilock_def acquiresleep_def
  by (auto simp: Let_def bindk_eq_Inr log_ext_same split: if_splits)

lemma iunlock_ext: "iunlock ip s = Inr (r, s') \<Longrightarrow> log_ext s s'"
  unfolding iunlock_def releasesleep_def
  by (auto simp: log_ext_same split: if_splits)

lemma content_frame_ftable: "content_frame ip s s' \<Longrightarrow> ftable s' = ftable s"
  by (simp add: content_frame_def fs_frame_def)

subsection \<open>One chunk\<close>

lemma write_chunk_Inr:
  assumes "write_chunk f src c s = Inr (r, s')"
  shows "\<exists>s1 s2 s3. ilock (f_ip (ftable s f)) (begin_op s) = Inr ((), s1) \<and>
           writei (f_ip (ftable s f)) src (f_off (ftable s f)) c s1 = Inr (r, s2) \<and>
           ftable s2 = ftable s \<and>
           iunlock (f_ip (ftable s f))
             (if 0 <s r then upd_file f (\<lambda>x. x\<lparr>f_off := f_off x + r\<rparr>) s2 else s2)
             = Inr ((), s3) \<and>
           s' = end_op s3"
proof -
  have t0: "ftable (begin_op s) = ftable s"
    by (simp add: begin_op_def)
  from assms obtain s1 s2 s3 where
    l: "ilock (f_ip (ftable s f)) (begin_op s) = Inr ((), s1)" and
    w: "writei (f_ip (ftable s1 f)) src (f_off (ftable s1 f)) c s1 = Inr (r, s2)" and
    u: "iunlock
          (f_ip (ftable (if 0 <s r then upd_file f (\<lambda>x. x\<lparr>f_off := f_off x + r\<rparr>) s2 else s2) f))
          (if 0 <s r then upd_file f (\<lambda>x. x\<lparr>f_off := f_off x + r\<rparr>) s2 else s2) = Inr ((), s3)"
    and e: "s' = end_op s3"
    by (auto simp: write_chunk_def bindk_eq_Inr Let_def t0)
  have t1: "ftable s1 = ftable s"
    using ilock_frame [OF l] t0 by (simp add: slot_frame_ftable)
  have t2: "ftable s2 = ftable s"
    using writei_frame [OF w] t1 by (simp add: content_frame_ftable)
  have fi: "f_ip (ftable
      (if 0 <s r then upd_file f (\<lambda>x. x\<lparr>f_off := f_off x + r\<rparr>) s2 else s2) f)
      = f_ip (ftable s f)"
    by (simp add: t2)
  from l w u e t1 t2 show ?thesis
    unfolding fi by simp
qed

lemma write_chunk_ftable:
  assumes "write_chunk f src c s = Inr (r, s')"
  shows "ftable s' = (ftable s)(f := (ftable s f)\<lparr>f_off :=
            (if 0 <s r then f_off (ftable s f) + r else f_off (ftable s f))\<rparr>)"
proof -
  from write_chunk_Inr [OF assms] obtain s2 s3 where
    t2: "ftable s2 = ftable s" and
    u: "iunlock (f_ip (ftable s f))
             (if 0 <s r then upd_file f (\<lambda>x. x\<lparr>f_off := f_off x + r\<rparr>) s2 else s2)
             = Inr ((), s3)" and
    e: "s' = end_op s3"
    by blast
  have "ftable s3 =
      ftable (if 0 <s r then upd_file f (\<lambda>x. x\<lparr>f_off := f_off x + r\<rparr>) s2 else s2)"
    using iunlock_frame [OF u] by (rule slot_frame_ftable)
  then show ?thesis
    by (simp add: e end_op_def t2)
qed

lemma write_chunk_log:
  assumes "write_chunk f src c s = Inr (r, s')"
  shows "\<exists>ws. oplog s' = oplog s @ BeginOp # ws @ [EndOp] \<and> list_all is_write ws"
proof -
  from write_chunk_Inr [OF assms] obtain s1 s2 s3 where
    l: "ilock (f_ip (ftable s f)) (begin_op s) = Inr ((), s1)" and
    w: "writei (f_ip (ftable s f)) src (f_off (ftable s f)) c s1 = Inr (r, s2)" and
    u: "iunlock (f_ip (ftable s f))
             (if 0 <s r then upd_file f (\<lambda>x. x\<lparr>f_off := f_off x + r\<rparr>) s2 else s2)
             = Inr ((), s3)" and
    e: "s' = end_op s3"
    by blast
  have "log_ext s2 (if 0 <s r then upd_file f (\<lambda>x. x\<lparr>f_off := f_off x + r\<rparr>) s2 else s2)"
    by (simp add: log_ext_same)
  with ilock_ext [OF l] writei_ext [OF w] iunlock_ext [OF u] have "log_ext (begin_op s) s3"
    by (blast intro: log_ext_trans)
  then obtain ws where "oplog s3 = oplog (begin_op s) @ ws" "list_all is_write ws"
    by (auto simp: log_ext_def)
  then have "oplog s' = oplog s @ BeginOp # ws @ [EndOp] \<and> list_all is_write ws"
    by (simp add: e end_op_def begin_op_def)
  then show ?thesis by blast
qed

subsection \<open>The chunks\<close>

lemma chunk_max_eq: "chunk_max = 1536"
  by (simp add: chunk_max_def MAXOPBLOCKS_def BSIZE_def)

lemma sint_filewrite_max: "sint filewrite_max = int chunk_max"
  by (simp add: filewrite_max_def MAXOPBLOCKS_def chunk_max_eq)

lemma chunk_sizes_0 [simp]: "chunk_sizes 0 = []"
  by (subst chunk_sizes.simps) simp

lemma chunk_sizes_pos:
  "0 < k \<Longrightarrow> chunk_sizes k = min k chunk_max # chunk_sizes (k - min k chunk_max)"
  by (subst chunk_sizes.simps) simp

lemma chunk_sizes_bound: "c \<in> set (chunk_sizes k) \<Longrightarrow> 0 < c \<and> c \<le> chunk_max"
proof (induction k rule: chunk_sizes.induct)
  case (1 k)
  show ?case
  proof (cases "k = 0")
    case True
    with "1.prems" show ?thesis by simp
  next
    case False
    from "1.prems" False have "c = min k chunk_max \<or> c \<in> set (chunk_sizes (k - min k chunk_max))"
      by (simp add: chunk_sizes.simps [of k])
    then show ?thesis
    proof
      assume "c = min k chunk_max"
      with False show ?thesis by (simp add: chunk_max_eq)
    next
      assume "c \<in> set (chunk_sizes (k - min k chunk_max))"
      with "1.IH" [OF False] show ?thesis .
    qed
  qed
qed

lemma chunk_sizes_sum: "sum_list (chunk_sizes k) = k"
proof (induction k rule: chunk_sizes.induct)
  case (1 k)
  show ?case
  proof (cases "k = 0")
    case True
    then show ?thesis by simp
  next
    case False
    with "1.IH" [OF False] show ?thesis
      by (simp add: chunk_sizes.simps [of k])
  qed
qed

subsection \<open>The loop of filewrite, chunk by chunk\<close>

lemma filewrite_loop_unfold:
  assumes "i <s n"
  shows "filewrite_loop f addr n i s =
     bindk (write_chunk f (\<lambda>k. addr (k + unat i))
              (if filewrite_max <s n - i then filewrite_max else n - i) s) (\<lambda>r s.
       if r <s 0 then Inr (i, s)
       else if r \<noteq> (if filewrite_max <s n - i then filewrite_max else n - i)
            then panic ''short filewrite''
       else filewrite_loop f addr n (i + r) s)"
  using assms
  by (subst filewrite_loop.simps)
    (simp add: write_chunk_def Let_def bindk_assoc cong: bindk_cong if_cong)


lemma sint_nonneg_unat:
  fixes i :: cint
  assumes "0 \<le> sint i"
  shows "unat i = nat (sint i)" and "word_of_nat (nat (sint i)) = i"
proof -
  have "(word_of_nat (nat (sint i)) :: cint) = word_of_int (sint i)"
    using assms by (rule of_nat_nat)
  then show w: "word_of_nat (nat (sint i)) = i" by simp
  have "nat (sint i) < 2 ^ 32"
    using sint_lt [of i] assms by simp
  then have "unat (word_of_nat (nat (sint i)) :: cint) = nat (sint i)"
    by (simp add: unat_of_nat)
  then show "unat i = nat (sint i)" unfolding w .
qed

lemma sint_of_nat_small:
  assumes "c < 2 ^ 31"
  shows "sint (word_of_nat c :: cint) = int c"
proof -
  have "unat (word_of_nat c :: cint) = c"
    using assms by (simp add: unat_of_nat)
  then show ?thesis
    using sint_small [of "word_of_nat c"] assms by simp
qed

lemma filewrite_chunk:
  fixes n i :: cint
  assumes "0 \<le> sint i" and "i <s n"
  shows "(if filewrite_max <s n - i then filewrite_max else n - i)
           = word_of_nat (min (nat (sint n - sint i)) chunk_max)"
    and "sint (i + word_of_nat (min (nat (sint n - sint i)) chunk_max))
           = sint i + int (min (nat (sint n - sint i)) chunk_max)"
proof -
  have lt: "sint i < sint n" using assms(2) by (simp add: word_sless_alt)
  have nb: "sint n < 2147483648" using sint_lt [of n] by simp
  have sub: "sint (n - i) = sint n - sint i"
    using assms(1) lt nb by (simp add: sint_word_ariths signed_take_bit_int_eq_self)
  define c where "c = min (nat (sint n - sint i)) chunk_max"
  have cb: "int c \<le> sint n - sint i" "c \<le> 1536" "0 < c"
    using lt by (simp_all add: c_def chunk_max_eq)
  have c31: "c < 2 ^ 31" using cb(2) by simp
  have sc: "sint (word_of_nat c :: cint) = int c"
    by (rule sint_of_nat_small [OF c31])
  have "(if filewrite_max <s n - i then filewrite_max else n - i) = word_of_nat c"
  proof (cases "filewrite_max <s n - i")
    case True
    then have "1536 < sint n - sint i"
      by (simp add: word_sless_alt sint_filewrite_max chunk_max_eq sub)
    then have "c = 1536" by (simp add: c_def chunk_max_eq)
    moreover have "filewrite_max = 1536"
      by (simp add: filewrite_max_def MAXOPBLOCKS_def)
    ultimately show ?thesis using True by simp
  next
    case False
    then have "sint n - sint i \<le> 1536"
      by (simp add: word_sless_alt sint_filewrite_max chunk_max_eq sub)
    then have "int c = sint (n - i)" using lt by (simp add: c_def chunk_max_eq sub)
    then have "sint (word_of_nat c :: cint) = sint (n - i)" by (simp only: sc)
    then have "word_of_nat c = n - i" by (simp only: signed_word_eqI)
    with False show ?thesis by simp
  qed
  then show "(if filewrite_max <s n - i then filewrite_max else n - i)
           = word_of_nat (min (nat (sint n - sint i)) chunk_max)"
    by (simp only: c_def)
  have "sint (i + word_of_nat c) = signed_take_bit 31 (sint i + int c)"
    by (simp only: sint_word_ariths sc) simp
  also have "\<dots> = sint i + int c"
    using assms(1) cb(1) nb by (simp add: signed_take_bit_int_eq_self)
  finally show "sint (i + word_of_nat (min (nat (sint n - sint i)) chunk_max))
           = sint i + int (min (nat (sint n - sint i)) chunk_max)"
    by (simp only: c_def)
qed

lemma filewrite_loop_chunks:
  "0 \<le> sint i \<Longrightarrow> sint i \<le> sint n \<Longrightarrow>
   filewrite_loop f addr n i s =
     bindk (run_chunks f addr (nat (sint i)) (chunk_sizes (nat (sint n - sint i))) s)
       (\<lambda>j s. Inr (word_of_nat j, s))"
proof (induction "nat (sint n - sint i)" arbitrary: i s rule: less_induct)
  case less
  show ?case
  proof (cases "i <s n")
    case False
    with less.prems have "sint n - sint i = 0" by (simp add: word_sless_alt)
    with False less.prems(1) show ?thesis
      by (subst filewrite_loop.simps) (simp add: sint_nonneg_unat(2))
  next
    case True
    define c where "c = min (nat (sint n - sint i)) chunk_max"
    have lt: "sint i < sint n" using True by (simp add: word_sless_alt)
    have cpos: "0 < c" "int c \<le> sint n - sint i"
      using lt by (simp_all add: c_def chunk_max_eq)
    note fc = filewrite_chunk [OF less.prems(1) True, folded c_def]
    have cs: "chunk_sizes (nat (sint n - sint i)) = c # chunk_sizes (nat (sint n - sint i) - c)"
      using lt chunk_sizes_pos [of "nat (sint n - sint i)"] by (simp add: c_def)
    have ui: "unat i = nat (sint i)"
      by (rule sint_nonneg_unat(1) [OF less.prems(1)])
    have ih: "filewrite_loop f addr n (i + word_of_nat c) s1 =
        bindk (run_chunks f addr (nat (sint i) + c) (chunk_sizes (nat (sint n - sint i) - c)) s1)
          (\<lambda>j s. Inr (word_of_nat j, s))" for s1
    proof -
      have a: "nat (sint n - sint (i + word_of_nat c)) < nat (sint n - sint i)"
        using cpos by (simp add: fc(2))
      have b: "0 \<le> sint (i + word_of_nat c)" "sint (i + word_of_nat c) \<le> sint n"
        using cpos less.prems(1) by (simp_all add: fc(2))
      have "nat (sint (i + word_of_nat c)) = nat (sint i) + c"
        using less.prems(1) by (simp add: fc(2) nat_add_distrib)
      moreover have "nat (sint n - sint (i + word_of_nat c)) = nat (sint n - sint i) - c"
        by (simp add: fc(2) nat_diff_distrib' diff_diff_eq)
      ultimately show ?thesis
        using less.hyps [OF a b, of s1] by simp
    qed
    have "filewrite_loop f addr n i s =
        bindk (write_chunk f (\<lambda>k. addr (k + nat (sint i))) (word_of_nat c) s) (\<lambda>r s.
          if r <s 0 then Inr (i, s)
          else if r \<noteq> word_of_nat c then panic ''short filewrite''
          else filewrite_loop f addr n (i + r) s)"
      by (simp only: filewrite_loop_unfold [OF True] fc(1) ui)
    also have "\<dots> =
        bindk (write_chunk f (\<lambda>k. addr (k + nat (sint i))) (word_of_nat c) s) (\<lambda>r s.
          bindk (if r <s 0 then Inr (nat (sint i), s)
                 else if r \<noteq> word_of_nat c then panic ''short filewrite''
                 else run_chunks f addr (nat (sint i) + c)
                        (chunk_sizes (nat (sint n - sint i) - c)) s)
            (\<lambda>j s. Inr (word_of_nat j, s)))"
      by (rule bindk_cong [OF refl])
        (simp add: ih sint_nonneg_unat(2) [OF less.prems(1)])
    also have "\<dots> =
        bindk (run_chunks f addr (nat (sint i)) (chunk_sizes (nat (sint n - sint i))) s)
          (\<lambda>j s. Inr (word_of_nat j, s))"
      by (simp only: cs run_chunks.simps bindk_assoc)
    finally show ?thesis .
  qed
qed

lemma openfile_off_same [simp]: "(x :: openfile)\<lparr>f_off := f_off x\<rparr> = x"
  by simp

lemma run_chunks_post:
  assumes "\<forall>c\<in>set cs. 0 < c \<and> c \<le> chunk_max"
    and "run_chunks f addr i cs s = Inr (j, s')"
  shows "i \<le> j \<and> j \<le> i + sum_list cs \<and>
         ftable s' = (ftable s)(f := (ftable s f)\<lparr>f_off :=
            f_off (ftable s f) + word_of_nat (j - i)\<rparr>) \<and>
         (\<exists>wss. oplog s' = oplog s @ concat (map (\<lambda>ws. BeginOp # ws @ [EndOp]) wss) \<and>
                list_all (list_all is_write) wss \<and> length wss \<le> length cs)"
  using assms
proof (induction cs arbitrary: i s)
  case Nil
  then have "j = i" "s' = s" by simp_all
  moreover have "oplog s = oplog s @ concat (map (\<lambda>ws. BeginOp # ws @ [EndOp]) []) \<and>
      list_all (list_all is_write) [] \<and> length ([] :: event list list) \<le> length ([] :: nat list)"
    by simp
  ultimately show ?case by auto
next
  case (Cons c cs)
  from Cons.prems(1) have cb: "0 < c" "c \<le> chunk_max" and rest: "\<forall>c\<in>set cs. 0 < c \<and> c \<le> chunk_max"
    by simp_all
  have sc: "sint (word_of_nat c :: cint) = int c"
    using cb(2) by (intro sint_of_nat_small) (simp add: chunk_max_eq)
  from Cons.prems(2) obtain r s1 where
    w: "write_chunk f (\<lambda>k. addr (k + i)) (word_of_nat c) s = Inr (r, s1)" and
    k: "(if r <s 0 then Inr (i, s1)
         else if r \<noteq> word_of_nat c then panic ''short filewrite''
         else run_chunks f addr (i + c) cs s1) = (Inr (j, s') :: nat result)"
    by (auto simp: bindk_eq_Inr)
  note ft = write_chunk_ftable [OF w]
  from write_chunk_log [OF w] obtain ws where
    lg: "oplog s1 = oplog s @ BeginOp # ws @ [EndOp]" and ws: "list_all is_write ws"
    by blast
  show ?case
  proof (cases "r <s 0")
    case True
    with k have e: "j = i" "s' = s1" by simp_all
    from True have "\<not> 0 <s r" by (simp add: word_sless_alt)
    with ft have ft1: "ftable s1 = (ftable s)(f := (ftable s f)\<lparr>f_off :=
            f_off (ftable s f) + word_of_nat (i - i)\<rparr>)"
      by simp
    have lg1: "oplog s1 = oplog s @ concat (map (\<lambda>ws. BeginOp # ws @ [EndOp]) [ws])"
      "list_all (list_all is_write) [ws]" "length [ws] \<le> length (c # cs)"
      using lg ws by simp_all
    show ?thesis
      unfolding e
      by (intro conjI exI [of _ "[ws]"]) (simp_all only: ft1 lg1 le_refl le_add1)
  next
    case False
    with k have r: "r = word_of_nat c" and
      rc: "run_chunks f addr (i + c) cs s1 = Inr (j, s')"
      by (auto split: if_splits)
    have pos: "0 <s r" using cb(1) by (simp add: word_sless_alt r sc)
    have f1: "ftable s1 f = (ftable s f)\<lparr>f_off := f_off (ftable s f) + word_of_nat c\<rparr>"
      using ft pos by (simp add: r)
    from Cons.IH [OF rest rc] obtain wss where
      b: "i + c \<le> j" "j \<le> i + c + sum_list cs" and
      t: "ftable s' = (ftable s1)(f := (ftable s1 f)\<lparr>f_off :=
            f_off (ftable s1 f) + word_of_nat (j - (i + c))\<rparr>)" and
      l: "oplog s' = oplog s1 @ concat (map (\<lambda>ws. BeginOp # ws @ [EndOp]) wss)"
         "list_all (list_all is_write) wss" "length wss \<le> length cs"
      by blast
    have "(word_of_nat c :: cint) + word_of_nat (j - (i + c)) = word_of_nat (c + (j - (i + c)))"
      by simp
    also have "c + (j - (i + c)) = j - i" using b(1) by simp
    finally have wd: "(word_of_nat c :: cint) + word_of_nat (j - (i + c)) = word_of_nat (j - i)" .
    have ft2: "ftable s' = (ftable s)(f := (ftable s f)\<lparr>f_off :=
            f_off (ftable s f) + word_of_nat (j - i)\<rparr>)"
      unfolding t f1 using ft pos by (simp add: add.assoc wd)
    have lg2: "oplog s' = oplog s @ concat (map (\<lambda>ws. BeginOp # ws @ [EndOp]) (ws # wss))"
      "list_all (list_all is_write) (ws # wss)" "length (ws # wss) \<le> length (c # cs)"
      using l lg ws by simp_all
    have b2: "i \<le> j" "j \<le> i + sum_list (c # cs)"
      using b by simp_all
    show ?thesis
      by (intro conjI exI [of _ "ws # wss"]) (rule b2 ft2 lg2)+
  qed
qed

lemma filewrite_result:
  fixes n :: cint
  assumes "j \<le> nat (sint n)"
  shows "(word_of_nat j = n) \<longleftrightarrow> (int j = sint n)"
proof (cases "0 \<le> sint n")
  case True
  have "nat (sint n) < 2 ^ 32" using sint_lt [of n] by simp
  with assms have "unat (word_of_nat j :: cint) = j"
    by (simp add: unat_of_nat)
  moreover have "unat n = nat (sint n)"
    by (rule sint_nonneg_unat(1) [OF True])
  ultimately have "word_of_nat j = n \<longrightarrow> int j = sint n"
    using True by auto
  moreover have "word_of_nat j = n" if "int j = sint n"
  proof -
    from that have "j = nat (sint n)" by simp
    then show ?thesis by (simp only: sint_nonneg_unat(2) [OF True])
  qed
  ultimately show ?thesis by blast
next
  case False
  with assms have "j = 0" by simp
  with False show ?thesis by auto
qed

text \<open>
  C2. On a writable handle on an inode, filewrite is the run of the chunks of \<open>n\<close>
  bytes, each of at most \<open>((MAXOPBLOCKS - 4) / 2) * BSIZE\<close> bytes, together \<open>n\<close> bytes.
  Each chunk is one transaction: its log entries are a begin, block writes, an end;
  the handle's offset has advanced by the count of writei when that is positive, and
  nothing else has changed in the table of open files. When filewrite returns, the
  offset has advanced by the number \<open>i\<close> of bytes written, and the result is \<open>n\<close> if
  \<open>i = n\<close> and -1 otherwise.
\<close>

theorem filewrite_chunks:
  assumes "f_writable (ftable s f) \<noteq> 0" and "f_type (ftable s f) = FD_INODE"
  shows "filewrite f addr n s =
           bindk (run_chunks f addr 0 (chunk_sizes (nat (sint n))) s) (\<lambda>i s'.
             Inr (if int i = sint n then n else - 1, s')) \<and>
         (\<forall>c\<in>set (chunk_sizes (nat (sint n))).
            0 < c \<and> int c \<le> ((MAXOPBLOCKS - 4) div 2) * int BSIZE) \<and>
         sum_list (chunk_sizes (nat (sint n))) = nat (sint n) \<and>
         (\<forall>src c s0 r s1. write_chunk f src c s0 = Inr (r, s1) \<longrightarrow>
            (\<exists>ws. oplog s1 = oplog s0 @ BeginOp # ws @ [EndOp] \<and> list_all is_write ws) \<and>
            ftable s1 = (ftable s0)(f := (ftable s0 f)\<lparr>f_off :=
              (if 0 <s r then f_off (ftable s0 f) + r else f_off (ftable s0 f))\<rparr>)) \<and>
         (\<forall>r s'. filewrite f addr n s = Inr (r, s') \<longrightarrow>
            (\<exists>i wss. run_chunks f addr 0 (chunk_sizes (nat (sint n))) s = Inr (i, s') \<and>
               i \<le> nat (sint n) \<and>
               ftable s' = (ftable s)(f := (ftable s f)\<lparr>f_off :=
                  f_off (ftable s f) + word_of_nat i\<rparr>) \<and>
               r = (if int i = sint n then n else - 1) \<and>
               oplog s' = oplog s @ concat (map (\<lambda>ws. BeginOp # ws @ [EndOp]) wss) \<and>
               list_all (list_all is_write) wss \<and>
               length wss \<le> length (chunk_sizes (nat (sint n)))))"
proof -
  define cs where "cs = chunk_sizes (nat (sint n))"
  have cb: "\<forall>c\<in>set cs. 0 < c \<and> c \<le> chunk_max"
    using chunk_sizes_bound by (auto simp: cs_def)
  have sm: "sum_list cs = nat (sint n)"
    by (simp add: cs_def chunk_sizes_sum)
  have loop: "filewrite_loop f addr n 0 s =
      bindk (run_chunks f addr 0 cs s) (\<lambda>j s. Inr (word_of_nat j, s))"
  proof (cases "0 \<le> sint n")
    case True
    then show ?thesis
      using filewrite_loop_chunks [of 0 n f addr s] by (simp add: cs_def)
  next
    case False
    then have "\<not> 0 <s n" by (simp add: word_sless_alt)
    then have "filewrite_loop f addr n 0 s = Inr (0, s)"
      by (subst filewrite_loop.simps) simp
    moreover from False have "cs = []" by (simp add: cs_def)
    ultimately show ?thesis by simp
  qed
  have eq: "filewrite f addr n s =
      bindk (run_chunks f addr 0 cs s) (\<lambda>i s'. Inr (if int i = sint n then n else - 1, s'))"
  proof -
    have "filewrite f addr n s =
        bindk (run_chunks f addr 0 cs s) (\<lambda>j s'.
          Inr (if word_of_nat j = n then n else - 1, s'))"
      using assms by (simp add: filewrite_def loop bindk_assoc)
    also have "\<dots> =
        bindk (run_chunks f addr 0 cs s) (\<lambda>i s'. Inr (if int i = sint n then n else - 1, s'))"
    proof (rule bindk_cong [OF refl])
      fix j s1
      assume "run_chunks f addr 0 cs s = Inr (j, s1)"
      from run_chunks_post [OF cb this] have "j \<le> nat (sint n)" by (simp add: sm)
      then show "Inr (if word_of_nat j = n then n else - 1, s1) =
          (Inr (if int j = sint n then n else - 1, s1) :: cint result)"
        by (simp add: filewrite_result)
    qed
    finally show ?thesis .
  qed
  have mx: "\<forall>c\<in>set cs. 0 < c \<and> int c \<le> ((MAXOPBLOCKS - 4) div 2) * int BSIZE"
    using cb by (auto simp: chunk_max_def)
  have ch: "\<forall>src c s0 r s1. write_chunk f src c s0 = Inr (r, s1) \<longrightarrow>
            (\<exists>ws. oplog s1 = oplog s0 @ BeginOp # ws @ [EndOp] \<and> list_all is_write ws) \<and>
            ftable s1 = (ftable s0)(f := (ftable s0 f)\<lparr>f_off :=
              (if 0 <s r then f_off (ftable s0 f) + r else f_off (ftable s0 f))\<rparr>)"
    using write_chunk_log write_chunk_ftable by blast
  have ret: "\<exists>i wss. run_chunks f addr 0 cs s = Inr (i, s') \<and>
               i \<le> nat (sint n) \<and>
               ftable s' = (ftable s)(f := (ftable s f)\<lparr>f_off :=
                  f_off (ftable s f) + word_of_nat i\<rparr>) \<and>
               r = (if int i = sint n then n else - 1) \<and>
               oplog s' = oplog s @ concat (map (\<lambda>ws. BeginOp # ws @ [EndOp]) wss) \<and>
               list_all (list_all is_write) wss \<and>
               length wss \<le> length cs"
    if "filewrite f addr n s = (Inr (r, s') :: cint result)" for r s'
  proof -
    from that [unfolded eq bindk_eq_Inr] obtain i where
      rc: "run_chunks f addr 0 cs s = Inr (i, s')" and
      r: "r = (if int i = sint n then n else - 1)"
      by auto
    from run_chunks_post [OF cb rc] rc r sm show ?thesis
      by (simp only: add_0 diff_zero) blast
  qed
  from eq mx sm ch ret show ?thesis
    unfolding cs_def by blast
qed

lemma hello_chunks:
  "\<exists>s'. run_chunks 0 (mem_of [33, 33, 33]) 0 (chunk_sizes 3) hello_state = Inr (3, s')"
  by (simp add: chunk_sizes_pos chunk_max_eq write_chunk_def begin_op_def end_op_def
      hello_state_def kstate0_def inode0_def file0_def ilock_def acquiresleep_def
      writei_def writei_loop.simps bmap_def bread_def iunlock_def holdingsleep_def
      releasesleep_def Let_def T_FILE_def T_DEV_def NDIRECT_def NINDIRECT_def MAXFILE_def
      BSIZE_def word_sless_alt iupdate_def log_write_def upd_inode_def upd_file_def)

theorem filewrite_chunks_witness:
  "f_writable (ftable hello_state 0) \<noteq> 0 \<and> f_type (ftable hello_state 0) = FD_INODE \<and>
   (\<exists>s'. filewrite 0 (mem_of [33, 33, 33]) 3 hello_state = Inr (3, s') \<and>
         f_off (ftable s' 0) = 3)"
proof -
  have a: "f_writable (ftable hello_state 0) \<noteq> 0" "f_type (ftable hello_state 0) = FD_INODE"
    by (simp_all add: hello_state_def)
  obtain s' where
    r: "run_chunks 0 (mem_of [33, 33, 33]) 0 (chunk_sizes 3) hello_state = Inr (3, s')"
    using hello_chunks by blast
  have e: "filewrite 0 (mem_of [33, 33, 33]) 3 hello_state = Inr (3, s')"
    using filewrite_chunks [OF a, of "mem_of [33, 33, 33]" 3, THEN conjunct1] r by simp
  from filewrite_chunks [OF a, of "mem_of [33, 33, 33]" 3, THEN conjunct2, THEN conjunct2,
      THEN conjunct2, THEN conjunct2, rule_format, OF e]
  have "f_off (ftable s' 0) = 3"
    using r by (auto simp: hello_state_def)
  with a e show ?thesis by blast
qed

section \<open>Creating a file: create and sys_open\<close>

subsection \<open>What the calls of create leave alone\<close>

lemma slot_frame_other: "slot_frame {ip} s s' \<Longrightarrow> k \<noteq> ip \<Longrightarrow> icache s' k = icache s k"
  by (simp add: slot_frame_def)

lemma slot_frame_same: "slot_frame {ip} s s1 \<Longrightarrow> slot_frame {ip} s1 s2 \<Longrightarrow> slot_frame {ip} s s2"
  using slot_frame_trans [of "{ip}" s s1 "{ip}" s2] by simp

lemma disk_frame_slot: "disk_frame s s' \<Longrightarrow> slot_frame A s s'"
  by (simp add: disk_frame_def slot_frame_def)

lemma iget_post:
  assumes "iget d inum s = Inr (ip, s')"
  shows "slot_frame {ip} s s'" and "disk s' = disk s"
    and "i_lock (icache s' ip) = i_lock (icache s ip)"
    and "i_dev (icache s' ip) = d" and "i_inum (icache s' ip) = inum"
proof -
  from assms have
    "(\<exists>g. s' = upd_inode ip g s \<and> (\<forall>i. i_lock (g i) = i_lock i) \<and>
          i_dev (g (icache s ip)) = d \<and> i_inum (g (icache s ip)) = inum)"
  proof (cases "iget_scan d inum 0 None s")
    case (Inl k)
    with assms have e: "k = ip" "s' = upd_inode ip (\<lambda>i. i\<lparr>i_ref := i_ref i + 1\<rparr>) s"
      by (auto simp: iget_def)
    from iget_scan_Inl [OF Inl] have "holds s ip d inum" by (simp add: e)
    then have "i_dev (icache s ip) = d" "i_inum (icache s ip) = inum"
      by (simp_all add: holds_def)
    with e(2) show ?thesis
      by (intro exI [of _ "\<lambda>i. i\<lparr>i_ref := i_ref i + 1\<rparr>"]) simp
  next
    case (Inr r)
    with assms obtain k where r: "r = Some k" by (cases r) (simp_all add: iget_def)
    with Inr assms have e: "k = ip"
      "s' = upd_inode ip (\<lambda>i. i\<lparr>i_dev := d, i_inum := inum, i_ref := 1, i_valid := 0\<rparr>) s"
      by (auto simp: iget_def)
    from e(2) show ?thesis
      by (intro exI [of _ "\<lambda>i. i\<lparr>i_dev := d, i_inum := inum, i_ref := 1, i_valid := 0\<rparr>"]) simp
  qed
  then obtain g where g: "s' = upd_inode ip g s" "\<forall>i. i_lock (g i) = i_lock i"
    "i_dev (g (icache s ip)) = d" "i_inum (g (icache s ip)) = inum"
    by blast
  show "slot_frame {ip} s s'" by (simp add: g(1))
  show "disk s' = disk s" by (simp add: g(1) upd_inode_def)
  show "i_lock (icache s' ip) = i_lock (icache s ip)" by (simp add: g(1,2))
  show "i_dev (icache s' ip) = d" by (simp add: g(1,3))
  show "i_inum (icache s' ip) = inum" by (simp add: g(1,4))
qed

text \<open>
  ialloc returns the inode of the first number from 1 on whose slot on the disk is free
  (type 0), after writing the new type there.
\<close>

lemma ialloc_from_post:
  "ialloc_from d ty inum s = Inr (ip, s') \<Longrightarrow>
   slot_frame {ip} s s' \<and> i_lock (icache s' ip) = i_lock (icache s ip) \<and>
   i_dev (icache s' ip) = d \<and>
   (\<exists>k. inum \<le> k \<and> k < unat (sb_ninodes (sb s)) \<and> i_inum (icache s' ip) = word_of_nat k \<and>
        d_type (get_dinode (disk s d (IBLOCK (word_of_nat k) (sb s))) (k mod IPB)) = 0 \<and>
        d_type (get_dinode (disk s' d (IBLOCK (word_of_nat k) (sb s))) (k mod IPB)) = ty)"
proof (induction d ty inum s rule: ialloc_from.induct)
  case (1 d ty inum s)
  define bno where "bno = IBLOCK (word_of_nat inum) (sb s)"
  define dip where "dip = (inum mod IPB) * sizeof_dinode"
  from "1.prems" have lt: "inum < unat (sb_ninodes (sb s))"
    by (subst (asm) ialloc_from.simps) (auto split: if_splits)
  show ?case
  proof (cases "get16 (bread d bno s) dip = 0")
    case True
    define s1 where "s1 = log_write d bno (put16 (memset (bread d bno s) dip 0 sizeof_dinode) dip ty) s"
    from "1.prems" lt True have g: "iget d (word_of_nat inum) s1 = Inr (ip, s')"
      by (subst (asm) ialloc_from.simps) (simp add: Let_def bno_def dip_def s1_def)
    note p = iget_post [OF g]
    have ic: "icache s1 = icache s" by (simp add: s1_def log_write_def)
    have "slot_frame {ip} s s1"
      unfolding s1_def by (rule disk_frame_slot [OF log_write_frame])
    then have fr: "slot_frame {ip} s s'"
      using p(1) by (rule slot_frame_same)
    have "d_type (get_dinode (disk s d bno) (inum mod IPB)) = 0"
      using True by (simp add: get_dinode_def Let_def bread_def dip_def)
    moreover have "d_type (get_dinode (disk s' d bno) (inum mod IPB)) = ty"
      by (simp add: p(2) s1_def log_write_def get_dinode_def Let_def dip_def)
    ultimately show ?thesis
      using fr p(3,4,5) lt ic unfolding bno_def by (intro conjI exI [of _ inum]) simp_all
  next
    case False
    with "1.prems" lt have r: "ialloc_from d ty (inum + 1) s = Inr (ip, s')"
      by (subst (asm) ialloc_from.simps) (simp add: Let_def bno_def dip_def)
    from "1.IH" [OF lt refl refl refl _ r] False obtain k where
      a: "slot_frame {ip} s s'" "i_lock (icache s' ip) = i_lock (icache s ip)"
         "i_dev (icache s' ip) = d" and
      k: "inum + 1 \<le> k" "k < unat (sb_ninodes (sb s))" "i_inum (icache s' ip) = word_of_nat k"
         "d_type (get_dinode (disk s d (IBLOCK (word_of_nat k) (sb s))) (k mod IPB)) = 0"
         "d_type (get_dinode (disk s' d (IBLOCK (word_of_nat k) (sb s))) (k mod IPB)) = ty"
      unfolding bno_def dip_def by blast
    from k(1) have "inum \<le> k" by simp
    with a k(2-) show ?thesis
      by (intro conjI exI [of _ k])
  qed
qed

lemma iput_post:
  assumes "iput ip s = Inr (u, s')"
  shows "slot_frame {ip} s s'" and "i_nlink (icache s' ip) = i_nlink (icache s ip)"
proof -
  define s1 where "s1 = upd_inode ip (\<lambda>i. i\<lparr>i_lock := True\<rparr>) s"
  from assms obtain s2 where
    m: "(if i_valid (icache s1 ip) \<noteq> 0 \<and> i_nlink (icache s1 ip) = 0 then
              (let r = i_ref (icache s1 ip)
               in if r = 1 then
                    bindk (itrunc ip s1) (\<lambda>_ s.
                      (let s = upd_inode ip (\<lambda>i. i\<lparr>i_type := 0\<rparr>) s;
                           s = iupdate ip s;
                           s = upd_inode ip (\<lambda>i. i\<lparr>i_valid := 0\<rparr>) s
                       in Inr ((), s)))
                  else Inr ((), s1))
            else Inr ((), s1)) = Inr ((), s2)" and
    e: "s' = upd_inode ip (\<lambda>i. i\<lparr>i_ref := i_ref i - 1\<rparr>) (releasesleep ip s2)"
    by (auto simp: iput_def acquiresleep_def bindk_eq_Inr Let_def s1_def split: if_splits)
  have "slot_frame {ip} s1 s2 \<and> i_nlink (icache s2 ip) = i_nlink (icache s1 ip)"
  proof (cases "i_valid (icache s1 ip) \<noteq> 0 \<and> i_nlink (icache s1 ip) = 0 \<and> i_ref (icache s1 ip) = 1")
    case True
    with m obtain s3 where
      t: "itrunc ip s1 = Inr ((), s3)" and
      e2: "s2 = upd_inode ip (\<lambda>i. i\<lparr>i_valid := 0\<rparr>)
                 (iupdate ip (upd_inode ip (\<lambda>i. i\<lparr>i_type := 0\<rparr>) s3))"
      by (auto simp: bindk_eq_Inr Let_def)
    note c = itrunc_post(1) [OF t]
    have "slot_frame {ip} s3 (iupdate ip (upd_inode ip (\<lambda>i. i\<lparr>i_type := 0\<rparr>) s3))"
      by (rule slot_frame_same [OF upd_inode_slot_frame disk_frame_slot [OF iupdate_frame]])
    then have "slot_frame {ip} s3 s2"
      unfolding e2 by (rule slot_frame_same [OF _ upd_inode_slot_frame])
    with content_frame_slot [OF c] have "slot_frame {ip} s1 s2"
      by (rule slot_frame_same)
    moreover have "i_nlink (icache s2 ip) = i_nlink (icache s1 ip)"
      using content_frame_fields(9) [OF c, of ip] by (simp add: e2)
    ultimately show ?thesis by simp
  next
    case False
    with m have "s2 = s1" by (auto simp: Let_def split: if_splits)
    then show ?thesis by simp
  qed
  then have f: "slot_frame {ip} s1 s2" and n: "i_nlink (icache s2 ip) = i_nlink (icache s1 ip)"
    by simp_all
  have "slot_frame {ip} s s2"
    using f unfolding s1_def by (rule slot_frame_same [OF upd_inode_slot_frame])
  then have "slot_frame {ip} s (releasesleep ip s2)"
    unfolding releasesleep_def by (rule slot_frame_same [OF _ upd_inode_slot_frame])
  then show "slot_frame {ip} s s'"
    unfolding e by (rule slot_frame_same [OF _ upd_inode_slot_frame])
  show "i_nlink (icache s' ip) = i_nlink (icache s ip)"
    by (simp add: e releasesleep_def n s1_def)
qed

lemma iunlockput_post:
  assumes "iunlockput ip s = Inr (u, s')"
  shows "slot_frame {ip} s s'" and "i_nlink (icache s' ip) = i_nlink (icache s ip)"
proof -
  from assms obtain s1 where
    a: "iunlock ip s = Inr ((), s1)" and b: "iput ip s1 = Inr (u, s')"
    by (auto simp: iunlockput_def bindk_eq_Inr)
  from iunlock_frame [OF a] iput_post(1) [OF b] show "slot_frame {ip} s s'"
    by (rule slot_frame_same)
  from a have "i_nlink (icache s1 ip) = i_nlink (icache s ip)"
    by (auto simp: iunlock_def releasesleep_def split: if_splits)
  with iput_post(2) [OF b] show "i_nlink (icache s' ip) = i_nlink (icache s ip)"
    by simp
qed

lemma dirlookup_loop_frame:
  assumes "dirlookup_loop dp name off s = Some y"
  shows "\<forall>s'. y = Inr (None, s') \<longrightarrow> addrs_frame dp s s'"
proof (rule dirlookup_loop.raw_induct [OF _ assms,
      where P = "\<lambda>dp name off s y. \<forall>s'. y = Inr (None, s') \<longrightarrow> addrs_frame dp s s'"],
    goal_cases)
  case (1 loop dp name off s y)
  show ?case
  proof (intro allI impI)
    fix s' assume y: "y = Inr (None, s')"
    show "addrs_frame dp s s'"
    proof (cases "off < i_size (icache s dp)")
      case False
      with 1(2) y show ?thesis by simp
    next
      case True
      with 1(2) y obtain r de s1 where
        rd: "readi dp off (word_of_nat sizeof_dirent) s = Inr ((r, de), s1)" and
        k: "(if r \<noteq> word_of_nat sizeof_dirent then Some (panic ''dirlookup read'')
             else if de_inum de = 0
                  then loop dp name (off + word_of_nat sizeof_dirent) s1
                  else if namecmp name (de_name de) = 0
                       then Some (bindk (iget (i_dev (icache s1 dp)) (ucast (de_inum de)) s1)
                                    (\<lambda>ip s. Inr (Some (ip, off), s)))
                       else loop dp name (off + word_of_nat sizeof_dirent) s1) = Some y"
        by (auto split: sum.splits prod.splits)
      from k y have "loop dp name (off + word_of_nat sizeof_dirent) s1 = Some y"
        by (auto simp: bindk_eq_Inr split: if_splits)
      from 1(1) [OF this] y have "addrs_frame dp s1 s'" by simp
      with readi_frame [OF rd] show ?thesis
        by (rule addrs_frame_trans)
    qed
  qed
qed

lemma dirlookup_frame: "dirlookup dp name s = Inr (None, s') \<Longrightarrow> addrs_frame dp s s'"
  unfolding dirlookup_def
  by (auto split: if_splits option.splits dest: dirlookup_loop_frame)

lemma dirlink_scan_frame:
  assumes "dirlink_scan dp off s = Some y"
  shows "\<forall>r s'. y = Inr (r, s') \<longrightarrow> addrs_frame dp s s'"
proof (rule dirlink_scan.raw_induct [OF _ assms,
      where P = "\<lambda>dp off s y. \<forall>r s'. y = Inr (r, s') \<longrightarrow> addrs_frame dp s s'"],
    goal_cases)
  case (1 scan dp off s y)
  show ?case
  proof (intro allI impI)
    fix r s' assume y: "y = Inr (r, s')"
    show "addrs_frame dp s s'"
    proof (cases "off < i_size (icache s dp)")
      case False
      with 1(2) y show ?thesis by simp
    next
      case True
      with 1(2) y obtain r1 de s1 where
        rd: "readi dp off (word_of_nat sizeof_dirent) s = Inr ((r1, de), s1)" and
        k: "(if r1 \<noteq> word_of_nat sizeof_dirent then Some (panic ''dirlink read'')
             else if de_inum de = 0 then Some (Inr (off, s1))
                  else scan dp (off + word_of_nat sizeof_dirent) s1) = Some y"
        by (auto split: sum.splits prod.splits)
      have "addrs_frame dp s1 s'"
      proof (cases "de_inum de = 0")
        case True
        with k y show ?thesis by (auto split: if_splits)
      next
        case False
        with k y have "scan dp (off + word_of_nat sizeof_dirent) s1 = Some y"
          by (auto split: if_splits)
        from 1(1) [OF this] y show ?thesis by simp
      qed
      with readi_frame [OF rd] show ?thesis
        by (rule addrs_frame_trans)
    qed
  qed
qed

text \<open>A dirlink that succeeds returns 0 and changes nothing of the cache but the
  block addresses and the size of the directory.\<close>

lemma dirlink_post:
  assumes "dirlink dp name inum s = Inr (r, s')" and "\<not> r <s 0"
  shows "content_frame dp s s'" and "r = 0"
proof -
  from assms obtain s1 x where
    l: "dirlookup dp name s = Inr (x, s1)" and
    k: "(case x of
         Some (ip, poff) \<Rightarrow> bindk (iput ip s1) (\<lambda>_ s. Inr (- 1, s))
       | None \<Rightarrow>
           bindk (case dirlink_scan dp 0 s1 of None \<Rightarrow> Inl Diverges | Some r \<Rightarrow> r) (\<lambda>off s.
           bindk (writei dp (new_dirent name inum) off (word_of_nat sizeof_dirent) s) (\<lambda>r s.
             if r \<noteq> word_of_nat sizeof_dirent then panic ''dirlink'' else Inr (0, s))))
        = Inr (r, s')"
    by (auto simp: dirlink_def bindk_eq_Inr)
  have x: "x = None"
  proof (cases x)
    case (Some a)
    with k have "r = - 1" by (cases a) (auto simp: bindk_eq_Inr)
    with assms(2) show ?thesis by (simp add: word_sless_alt)
  qed simp
  from k x obtain y off s2 r2 where
    sc: "dirlink_scan dp 0 s1 = Some y" "y = Inr (off, s2)" and
    w: "writei dp (new_dirent name inum) off (word_of_nat sizeof_dirent) s2 = Inr (r2, s')" and
    r: "r = 0"
    by (auto simp: bindk_eq_Inr split: option.splits if_splits)
  from dirlink_scan_frame [OF sc(1)] sc(2) have "addrs_frame dp s1 s2" by simp
  with dirlookup_frame [OF l [unfolded x]] have "addrs_frame dp s s2"
    by (rule addrs_frame_trans)
  then have "content_frame dp s s2" by (rule addrs_frame_content)
  then show "content_frame dp s s'"
    using writei_frame [OF w] by (rule content_frame_trans)
  show "r = 0" by (rule r)
qed

subsection \<open>The new inode and its directory\<close>

text \<open>Slot \<open>k\<close> has the same identity, lock, device numbers and link count in both states.\<close>

definition same_meta :: "nat \<Rightarrow> kstate \<Rightarrow> kstate \<Rightarrow> bool" where
  "same_meta k s s' \<longleftrightarrow>
     i_dev (icache s' k) = i_dev (icache s k) \<and> i_inum (icache s' k) = i_inum (icache s k) \<and>
     i_lock (icache s' k) = i_lock (icache s k) \<and> i_major (icache s' k) = i_major (icache s k) \<and>
     i_minor (icache s' k) = i_minor (icache s k) \<and> i_nlink (icache s' k) = i_nlink (icache s k)"

lemma same_meta_refl [simp]: "same_meta k s s"
  by (simp add: same_meta_def)

lemma same_meta_trans: "same_meta k s s1 \<Longrightarrow> same_meta k s1 s2 \<Longrightarrow> same_meta k s s2"
  by (simp add: same_meta_def)

lemma content_frame_meta: "content_frame ip s s' \<Longrightarrow> same_meta k s s'"
  unfolding same_meta_def
  by (intro conjI content_frame_fields(1,2,4,7,8,9)) assumption+

lemma addrs_frame_meta: "addrs_frame ip s s' \<Longrightarrow> same_meta k s s'"
  by (rule content_frame_meta [OF addrs_frame_content])

lemma slot_frame_meta: "slot_frame {ip} s s' \<Longrightarrow> k \<noteq> ip \<Longrightarrow> same_meta k s s'"
  by (simp add: same_meta_def slot_frame_other)

lemma disk_frame_meta: "disk_frame s s' \<Longrightarrow> same_meta k s s'"
  by (simp add: same_meta_def disk_frame_def)

lemma ilock_locked:
  assumes "ilock ip s = Inr (u, s')"
  shows "\<not> i_lock (icache s ip)" and "i_lock (icache s' ip)"
    and "i_dev (icache s' ip) = i_dev (icache s ip)"
    and "i_inum (icache s' ip) = i_inum (icache s ip)"
  using assms
  by (auto simp: ilock_def acquiresleep_def bindk_eq_Inr Let_def split: if_splits)

lemma fdalloc_scan_bound: "fdalloc_scan fd s = Some k \<Longrightarrow> k < NOFILE"
proof (induction fd s rule: fdalloc_scan.induct)
  case (1 fd s)
  from "1.prems" show ?case
    by (subst (asm) fdalloc_scan.simps) (auto split: if_splits intro: "1.IH")
qed

text \<open>The entries \<open>.\<close> and \<open>..\<close> of a new directory, and the link they add to the parent.\<close>

lemma create_dots:
  assumes "(if ty = T_DIR then
              (let s = upd_inode dp (\<lambda>i. i\<lparr>i_nlink := i_nlink i + 1\<rparr>) s5;
                   s = iupdate dp s
               in bindk (dirlink ip dot (i_inum (icache s ip)) s) (\<lambda>r s.
                    if r <s 0 then panic ''create dots''
                    else bindk (dirlink ip dotdot (i_inum (icache s dp)) s) (\<lambda>r s.
                           if r <s 0 then panic ''create dots'' else Inr ((), s))))
            else Inr ((), s5)) = Inr (u, s6)"
    and "ip \<noteq> dp"
  shows "same_meta ip s5 s6"
    and "i_nlink (icache s6 dp) =
           (if ty = T_DIR then i_nlink (icache s5 dp) + 1 else i_nlink (icache s5 dp))"
    and "i_inum (icache s6 dp) = i_inum (icache s5 dp)"
    and "i_lock (icache s6 dp) = i_lock (icache s5 dp)"
    and "ty = T_DIR \<longrightarrow>
           (\<exists>sa sb. dirlink ip dot (i_inum (icache s5 ip)) sa = Inr (0, sb) \<and>
                    dirlink ip dotdot (i_inum (icache s5 dp)) sb = Inr (0, s6))"
proof -
  have "same_meta ip s5 s6 \<and>
        i_nlink (icache s6 dp) =
           (if ty = T_DIR then i_nlink (icache s5 dp) + 1 else i_nlink (icache s5 dp)) \<and>
        i_inum (icache s6 dp) = i_inum (icache s5 dp) \<and>
        i_lock (icache s6 dp) = i_lock (icache s5 dp) \<and>
        (ty = T_DIR \<longrightarrow>
           (\<exists>sa sb. dirlink ip dot (i_inum (icache s5 ip)) sa = Inr (0, sb) \<and>
                    dirlink ip dotdot (i_inum (icache s5 dp)) sb = Inr (0, s6)))"
  proof (cases "ty = T_DIR")
    case False
    with assms(1) show ?thesis by simp
  next
    case True
    define sa where "sa = iupdate dp (upd_inode dp (\<lambda>i. i\<lparr>i_nlink := i_nlink i + 1\<rparr>) s5)"
    have ia: "icache sa = (icache s5)(dp := (icache s5 dp)\<lparr>i_nlink := i_nlink (icache s5 dp) + 1\<rparr>)"
      by (simp add: sa_def upd_inode_def)
    from assms(1) True obtain ra sb rb where
      d1: "dirlink ip dot (i_inum (icache sa ip)) sa = Inr (ra, sb)" and n1: "\<not> ra <s 0" and
      d2: "dirlink ip dotdot (i_inum (icache sb dp)) sb = Inr (rb, s6)" and n2: "\<not> rb <s 0"
      by (auto simp: Let_def bindk_eq_Inr sa_def split: if_splits)
    note p1 = dirlink_post [OF d1 n1] and p2 = dirlink_post [OF d2 n2]
    have m1: "same_meta k sa sb" for k by (rule content_frame_meta [OF p1(1)])
    have m2: "same_meta k sb s6" for k by (rule content_frame_meta [OF p2(1)])
    have m: "same_meta k sa s6" for k by (rule same_meta_trans [OF m1 m2])
    have a: "same_meta ip s5 s6"
      using m [of ip] assms(2) by (simp add: same_meta_def ia)
    have b: "i_nlink (icache s6 dp) = i_nlink (icache s5 dp) + 1"
      "i_inum (icache s6 dp) = i_inum (icache s5 dp)"
      "i_lock (icache s6 dp) = i_lock (icache s5 dp)"
      using m [of dp] by (simp_all add: same_meta_def ia)
    have i1: "i_inum (icache sa ip) = i_inum (icache s5 ip)"
      using assms(2) by (simp add: ia)
    have i2: "i_inum (icache sb dp) = i_inum (icache s5 dp)"
      using m1 [of dp] by (simp add: same_meta_def ia)
    from d1 d2 have "dirlink ip dot (i_inum (icache s5 ip)) sa = Inr (0, sb) \<and>
        dirlink ip dotdot (i_inum (icache s5 dp)) sb = Inr (0, s6)"
      by (simp add: i1 i2 p1(2) p2(2))
    then have "\<exists>sa sb. dirlink ip dot (i_inum (icache s5 ip)) sa = Inr (0, sb) \<and>
        dirlink ip dotdot (i_inum (icache s5 dp)) sb = Inr (0, s6)"
      by blast
    with a b True show ?thesis by simp
  qed
  then show "same_meta ip s5 s6"
    and "i_nlink (icache s6 dp) =
           (if ty = T_DIR then i_nlink (icache s5 dp) + 1 else i_nlink (icache s5 dp))"
    and "i_inum (icache s6 dp) = i_inum (icache s5 dp)"
    and "i_lock (icache s6 dp) = i_lock (icache s5 dp)"
    and "ty = T_DIR \<longrightarrow>
           (\<exists>sa sb. dirlink ip dot (i_inum (icache s5 ip)) sa = Inr (0, sb) \<and>
                    dirlink ip dotdot (i_inum (icache s5 dp)) sb = Inr (0, s6))"
    by blast+
qed

lemma bindk_InrE:
  assumes "bindk m f = Inr r"
  obtains x s where "m = Inr (x, s)" and "f x s = Inr r"
  using assms by (auto simp: bindk_eq_Inr)

lemma create_absent:
  assumes np: "nameiparent path (\<lambda>k. 0) s = Inr ((Some dp, name), s0)"
    and lk: "ilock dp s0 = Inr ((), s1)"
    and dl: "dirlookup dp name s1 = Inr (None, s2)"
    and cr: "create path ty mj mn s = Inr (r, s')"
  shows "\<exists>ip s3 k.
           ialloc (i_dev (icache s2 dp)) ty s2 = Inr (ip, s3) \<and> r = Some ip \<and> ip \<noteq> dp \<and>
           1 \<le> k \<and> k < unat (sb_ninodes (sb s2)) \<and>
           d_type (get_dinode (disk s2 (i_dev (icache s2 dp)) (IBLOCK (word_of_nat k) (sb s2)))
                     (k mod IPB)) = 0 \<and>
           i_dev (icache s' ip) = i_dev (icache s2 dp) \<and> i_inum (icache s' ip) = word_of_nat k \<and>
           i_lock (icache s' ip) \<and> i_nlink (icache s' ip) = 1 \<and>
           i_major (icache s' ip) = mj \<and> i_minor (icache s' ip) = mn \<and>
           i_nlink (icache s' dp) =
             (if ty = T_DIR then i_nlink (icache s2 dp) + 1 else i_nlink (icache s2 dp)) \<and>
           (ty = T_DIR \<longrightarrow>
              (\<exists>sa sb sc. dirlink ip dot (word_of_nat k) sa = Inr (0, sb) \<and>
                          dirlink ip dotdot (i_inum (icache s2 dp)) sb = Inr (0, sc))) \<and>
           (\<exists>sd se. dirlink dp name (word_of_nat k) sd = Inr (0, se) \<and>
                    iunlockput dp se = Inr ((), s'))"
proof -
  define d where "d = i_dev (icache s2 dp)"
  from cr have cr2:
    "bindk (ialloc d ty s2) (\<lambda>ip s.
       bindk (ilock ip s) (\<lambda>_ s.
         (let s = upd_inode ip (\<lambda>i. i\<lparr>i_major := mj, i_minor := mn, i_nlink := 1\<rparr>) s;
              s = iupdate ip s
          in bindk (if ty = T_DIR then
                      (let s = upd_inode dp (\<lambda>i. i\<lparr>i_nlink := i_nlink i + 1\<rparr>) s;
                           s = iupdate dp s
                       in bindk (dirlink ip dot (i_inum (icache s ip)) s) (\<lambda>r s.
                            if r <s 0 then panic ''create dots''
                            else bindk (dirlink ip dotdot (i_inum (icache s dp)) s) (\<lambda>r s.
                                   if r <s 0 then panic ''create dots'' else Inr ((), s))))
                    else Inr ((), s)) (\<lambda>_ s.
             bindk (dirlink dp name (i_inum (icache s ip)) s) (\<lambda>r s.
               if r <s 0 then panic ''create: dirlink''
               else bindk (iunlockput dp s) (\<lambda>_ s. Inr (Some ip, s))))))) = Inr (r, s')"
    by (simp add: create_def np lk dl d_def)
  from cr2 obtain ip s3 where
    al: "ialloc d ty s2 = Inr (ip, s3)" and
    c3: "bindk (ilock ip s3) (\<lambda>_ s.
         (let s = upd_inode ip (\<lambda>i. i\<lparr>i_major := mj, i_minor := mn, i_nlink := 1\<rparr>) s;
              s = iupdate ip s
          in bindk (if ty = T_DIR then
                      (let s = upd_inode dp (\<lambda>i. i\<lparr>i_nlink := i_nlink i + 1\<rparr>) s;
                           s = iupdate dp s
                       in bindk (dirlink ip dot (i_inum (icache s ip)) s) (\<lambda>r s.
                            if r <s 0 then panic ''create dots''
                            else bindk (dirlink ip dotdot (i_inum (icache s dp)) s) (\<lambda>r s.
                                   if r <s 0 then panic ''create dots'' else Inr ((), s))))
                    else Inr ((), s)) (\<lambda>_ s.
             bindk (dirlink dp name (i_inum (icache s ip)) s) (\<lambda>r s.
               if r <s 0 then panic ''create: dirlink''
               else bindk (iunlockput dp s) (\<lambda>_ s. Inr (Some ip, s)))))) = Inr (r, s')"
    by (rule bindk_InrE)
  from c3 obtain u4 s4 where
    il: "ilock ip s3 = Inr (u4, s4)" and
    c4: "(let s = upd_inode ip (\<lambda>i. i\<lparr>i_major := mj, i_minor := mn, i_nlink := 1\<rparr>) s4;
              s = iupdate ip s
          in bindk (if ty = T_DIR then
                      (let s = upd_inode dp (\<lambda>i. i\<lparr>i_nlink := i_nlink i + 1\<rparr>) s;
                           s = iupdate dp s
                       in bindk (dirlink ip dot (i_inum (icache s ip)) s) (\<lambda>r s.
                            if r <s 0 then panic ''create dots''
                            else bindk (dirlink ip dotdot (i_inum (icache s dp)) s) (\<lambda>r s.
                                   if r <s 0 then panic ''create dots'' else Inr ((), s))))
                    else Inr ((), s)) (\<lambda>_ s.
             bindk (dirlink dp name (i_inum (icache s ip)) s) (\<lambda>r s.
               if r <s 0 then panic ''create: dirlink''
               else bindk (iunlockput dp s) (\<lambda>_ s. Inr (Some ip, s))))) = Inr (r, s')"
    by (rule bindk_InrE)
  define s5 where
    "s5 = iupdate ip (upd_inode ip (\<lambda>i. i\<lparr>i_major := mj, i_minor := mn, i_nlink := 1\<rparr>) s4)"
  from c4 have c5:
    "bindk (if ty = T_DIR then
                      (let s = upd_inode dp (\<lambda>i. i\<lparr>i_nlink := i_nlink i + 1\<rparr>) s5;
                           s = iupdate dp s
                       in bindk (dirlink ip dot (i_inum (icache s ip)) s) (\<lambda>r s.
                            if r <s 0 then panic ''create dots''
                            else bindk (dirlink ip dotdot (i_inum (icache s dp)) s) (\<lambda>r s.
                                   if r <s 0 then panic ''create dots'' else Inr ((), s))))
                    else Inr ((), s5)) (\<lambda>_ s.
             bindk (dirlink dp name (i_inum (icache s ip)) s) (\<lambda>r s.
               if r <s 0 then panic ''create: dirlink''
               else bindk (iunlockput dp s) (\<lambda>_ s. Inr (Some ip, s)))) = Inr (r, s')"
    unfolding s5_def Let_def .
  from c5 obtain u6 s6 where
    dots0: "(if ty = T_DIR then
              (let s = upd_inode dp (\<lambda>i. i\<lparr>i_nlink := i_nlink i + 1\<rparr>) s5;
                   s = iupdate dp s
               in bindk (dirlink ip dot (i_inum (icache s ip)) s) (\<lambda>r s.
                    if r <s 0 then panic ''create dots''
                    else bindk (dirlink ip dotdot (i_inum (icache s dp)) s) (\<lambda>r s.
                           if r <s 0 then panic ''create dots'' else Inr ((), s))))
            else Inr ((), s5)) = Inr (u6, s6)" and
    c6: "bindk (dirlink dp name (i_inum (icache s6 ip)) s6) (\<lambda>r s.
               if r <s 0 then panic ''create: dirlink''
               else bindk (iunlockput dp s) (\<lambda>_ s. Inr (Some ip, s))) = Inr (r, s')"
    by (rule bindk_InrE)
  from c6 obtain r7 s7 where
    dk: "dirlink dp name (i_inum (icache s6 ip)) s6 = Inr (r7, s7)" and
    c7: "(if r7 <s 0 then panic ''create: dirlink''
          else bindk (iunlockput dp s7) (\<lambda>_ s. Inr (Some ip, s))) = Inr (r, s')"
    by (rule bindk_InrE)
  from c7 have nn: "\<not> r7 <s 0" by (auto split: if_splits)
  with c7 have up: "iunlockput dp s7 = Inr ((), s')" and re: "r = Some ip"
    by (auto simp: bindk_eq_Inr)
  note l1 = ilock_locked [OF lk]
  have m12: "same_meta k s1 s2" for k
    by (rule addrs_frame_meta [OF dirlookup_frame [OF dl]])
  from al have "ialloc_from d ty 1 s2 = Inr (ip, s3)" by (simp add: ialloc_def)
  from ialloc_from_post [OF this] obtain k where
    f23: "slot_frame {ip} s2 s3" and l23: "i_lock (icache s3 ip) = i_lock (icache s2 ip)" and
    dv: "i_dev (icache s3 ip) = d" and
    k: "1 \<le> k" "k < unat (sb_ninodes (sb s2))" "i_inum (icache s3 ip) = word_of_nat k"
       "d_type (get_dinode (disk s2 d (IBLOCK (word_of_nat k) (sb s2))) (k mod IPB)) = 0"
    by blast
  note l3 = ilock_locked [OF il]
  have ne: "ip \<noteq> dp"
  proof
    assume "ip = dp"
    with l23 m12 [of dp] l1(2) have "i_lock (icache s3 ip)" by (simp add: same_meta_def)
    with l3(1) show False by simp
  qed
  have f34: "slot_frame {ip} s3 s4" by (rule ilock_frame [OF il])
  have i5: "icache s5 = (icache s4)(ip := (icache s4 ip)\<lparr>i_major := mj, i_minor := mn, i_nlink := 1\<rparr>)"
    by (simp add: s5_def upd_inode_def)
  note dt = create_dots [OF dots0 ne]
  note pk = dirlink_post [OF dk nn]
  have m67: "same_meta j s6 s7" for j by (rule content_frame_meta [OF pk(1)])
  note pu = iunlockput_post [OF up]
  have m7: "same_meta ip s7 s'" by (rule slot_frame_meta [OF pu(1) ne])
  have mip: "same_meta ip s5 s'"
    by (rule same_meta_trans [OF dt(1) same_meta_trans [OF m67 m7]])
  have ip5: "i_dev (icache s5 ip) = d" "i_inum (icache s5 ip) = word_of_nat k"
    "i_lock (icache s5 ip)" "i_nlink (icache s5 ip) = 1"
    "i_major (icache s5 ip) = mj" "i_minor (icache s5 ip) = mn"
    using l3 dv k(3) by (simp_all add: i5)
  have dp2: "icache s5 dp = icache s2 dp"
    using ne slot_frame_other [OF f23, of dp] slot_frame_other [OF f34, of dp] by (simp add: i5)
  have in6: "i_inum (icache s6 ip) = word_of_nat k"
    using dt(1) ip5(2) by (simp add: same_meta_def)
  have nl: "i_nlink (icache s' dp) =
      (if ty = T_DIR then i_nlink (icache s2 dp) + 1 else i_nlink (icache s2 dp))"
    using pu(2) m67 [of dp] dt(2) by (simp add: same_meta_def dp2)
  have dd: "ty = T_DIR \<longrightarrow>
      (\<exists>sa sb sc. dirlink ip dot (word_of_nat k) sa = Inr (0, sb) \<and>
                  dirlink ip dotdot (i_inum (icache s2 dp)) sb = Inr (0, sc))"
    using dt(5) by (simp add: ip5(2) dp2) blast
  have de: "\<exists>sd se. dirlink dp name (word_of_nat k) sd = Inr (0, se) \<and>
      iunlockput dp se = Inr ((), s')"
    using dk up pk(2) by (simp add: in6) blast
  have ip': "i_dev (icache s' ip) = d" "i_inum (icache s' ip) = word_of_nat k"
    "i_lock (icache s' ip)" "i_nlink (icache s' ip) = 1"
    "i_major (icache s' ip) = mj" "i_minor (icache s' ip) = mn"
    using mip ip5 by (simp_all add: same_meta_def)
  show ?thesis
    unfolding d_def [symmetric]
    apply (rule exI [of _ ip])
    apply (rule exI [of _ s3])
    apply (rule exI [of _ k])
    apply (intro conjI)
    apply (rule al re ne k(1,2,4) ip' nl dd de)+
    done
qed

subsection \<open>The inode found under a name that is there\<close>

lemma iput_ident:
  assumes "iput ip s = Inr (u, s')"
  shows "i_dev (icache s' k) = i_dev (icache s k)" and "i_inum (icache s' k) = i_inum (icache s k)"
proof -
  define s1 where "s1 = upd_inode ip (\<lambda>i. i\<lparr>i_lock := True\<rparr>) s"
  from assms obtain s2 where
    m: "(if i_valid (icache s1 ip) \<noteq> 0 \<and> i_nlink (icache s1 ip) = 0 then
              (let r = i_ref (icache s1 ip)
               in if r = 1 then
                    bindk (itrunc ip s1) (\<lambda>_ s.
                      (let s = upd_inode ip (\<lambda>i. i\<lparr>i_type := 0\<rparr>) s;
                           s = iupdate ip s;
                           s = upd_inode ip (\<lambda>i. i\<lparr>i_valid := 0\<rparr>) s
                       in Inr ((), s)))
                  else Inr ((), s1))
            else Inr ((), s1)) = Inr ((), s2)" and
    e: "s' = upd_inode ip (\<lambda>i. i\<lparr>i_ref := i_ref i - 1\<rparr>) (releasesleep ip s2)"
    by (auto simp: iput_def acquiresleep_def bindk_eq_Inr Let_def s1_def split: if_splits)
  have "i_dev (icache s2 k) = i_dev (icache s1 k) \<and> i_inum (icache s2 k) = i_inum (icache s1 k)"
  proof (cases "i_valid (icache s1 ip) \<noteq> 0 \<and> i_nlink (icache s1 ip) = 0 \<and> i_ref (icache s1 ip) = 1")
    case True
    with m obtain s3 where
      t: "itrunc ip s1 = Inr ((), s3)" and
      e2: "s2 = upd_inode ip (\<lambda>i. i\<lparr>i_valid := 0\<rparr>)
                 (iupdate ip (upd_inode ip (\<lambda>i. i\<lparr>i_type := 0\<rparr>) s3))"
      by (auto simp: bindk_eq_Inr Let_def)
    note c = itrunc_post(1) [OF t]
    show ?thesis
      using content_frame_fields(1,2) [OF c, of k] by (auto simp: e2)
  next
    case False
    with m have "s2 = s1" by (auto simp: Let_def split: if_splits)
    then show ?thesis by simp
  qed
  then show "i_dev (icache s' k) = i_dev (icache s k)"
    and "i_inum (icache s' k) = i_inum (icache s k)"
    by (auto simp: e releasesleep_def s1_def split: if_splits)
qed

lemma iunlockput_ident:
  assumes "iunlockput ip s = Inr (u, s')"
  shows "i_dev (icache s' k) = i_dev (icache s k)" and "i_inum (icache s' k) = i_inum (icache s k)"
proof -
  from assms obtain s1 where
    a: "iunlock ip s = Inr ((), s1)" and b: "iput ip s1 = Inr (u, s')"
    by (auto simp: iunlockput_def bindk_eq_Inr)
  from a have "i_dev (icache s1 k) = i_dev (icache s k) \<and> i_inum (icache s1 k) = i_inum (icache s k)"
    by (auto simp: iunlock_def releasesleep_def split: if_splits)
  with iput_ident [OF b, of k] show "i_dev (icache s' k) = i_dev (icache s k)"
    and "i_inum (icache s' k) = i_inum (icache s k)"
    by simp_all
qed

text \<open>The inode dirlookup returns is the one an entry in use with this name names.\<close>

lemma dirlookup_loop_found:
  assumes "dirlookup_loop dp name off s = Some y"
  shows "\<forall>ip poff s'. y = Inr (Some (ip, poff), s') \<longrightarrow>
           (\<exists>de s1. de_inum de \<noteq> 0 \<and> namecmp name (de_name de) = 0 \<and>
              iget (i_dev (icache s1 dp)) (ucast (de_inum de)) s1 = Inr (ip, s') \<and>
              addrs_frame dp s s1)"
proof (rule dirlookup_loop.raw_induct [OF _ assms,
      where P = "\<lambda>dp name off s y. \<forall>ip poff s'. y = Inr (Some (ip, poff), s') \<longrightarrow>
           (\<exists>de s1. de_inum de \<noteq> 0 \<and> namecmp name (de_name de) = 0 \<and>
              iget (i_dev (icache s1 dp)) (ucast (de_inum de)) s1 = Inr (ip, s') \<and>
              addrs_frame dp s s1)"],
    goal_cases)
  case (1 loop dp name off s y)
  show ?case
  proof (intro allI impI)
    fix ip poff s' assume y: "y = Inr (Some (ip, poff), s')"
    show "\<exists>de s1. de_inum de \<noteq> 0 \<and> namecmp name (de_name de) = 0 \<and>
              iget (i_dev (icache s1 dp)) (ucast (de_inum de)) s1 = Inr (ip, s') \<and>
              addrs_frame dp s s1"
    proof (cases "off < i_size (icache s dp)")
      case False
      with 1(2) y show ?thesis by simp
    next
      case True
      with 1(2) y obtain r de s1 where
        rd: "readi dp off (word_of_nat sizeof_dirent) s = Inr ((r, de), s1)" and
        k: "(if r \<noteq> word_of_nat sizeof_dirent then Some (panic ''dirlookup read'')
             else if de_inum de = 0
                  then loop dp name (off + word_of_nat sizeof_dirent) s1
                  else if namecmp name (de_name de) = 0
                       then Some (bindk (iget (i_dev (icache s1 dp)) (ucast (de_inum de)) s1)
                                    (\<lambda>ip s. Inr (Some (ip, off), s)))
                       else loop dp name (off + word_of_nat sizeof_dirent) s1) = Some y"
        by (auto split: sum.splits prod.splits)
      note f = readi_frame [OF rd]
      from k y have r: "r = word_of_nat sizeof_dirent"
        by (auto split: if_splits)
      show ?thesis
      proof (cases "de_inum de \<noteq> 0 \<and> namecmp name (de_name de) = 0")
        case True
        with k r y have "iget (i_dev (icache s1 dp)) (ucast (de_inum de)) s1 = Inr (ip, s')"
          by (auto simp: bindk_eq_Inr)
        with True f show ?thesis by blast
      next
        case False
        with k r have "loop dp name (off + word_of_nat sizeof_dirent) s1 = Some y"
          by (auto split: if_splits)
        from 1(1) [OF this] y obtain de' s2 where
          a: "de_inum de' \<noteq> 0" "namecmp name (de_name de') = 0"
             "iget (i_dev (icache s2 dp)) (ucast (de_inum de')) s2 = Inr (ip, s')"
             "addrs_frame dp s1 s2"
          by blast
        from f a(4) have "addrs_frame dp s s2" by (rule addrs_frame_trans)
        with a(1,2,3) show ?thesis by blast
      qed
    qed
  qed
qed

lemma dirlookup_found:
  assumes "dirlookup dp name s = Inr (Some (ip, poff), s')"
  shows "\<exists>de. de_inum de \<noteq> 0 \<and> namecmp name (de_name de) = 0 \<and>
              i_dev (icache s' ip) = i_dev (icache s dp) \<and>
              i_inum (icache s' ip) = ucast (de_inum de)"
proof -
  from assms obtain y where
    l: "dirlookup_loop dp name 0 s = Some y" and y: "y = Inr (Some (ip, poff), s')"
    by (auto simp: dirlookup_def split: if_splits option.splits)
  from dirlookup_loop_found [OF l] y obtain de s1 where
    a: "de_inum de \<noteq> 0" "namecmp name (de_name de) = 0"
       "iget (i_dev (icache s1 dp)) (ucast (de_inum de)) s1 = Inr (ip, s')"
       "addrs_frame dp s s1"
    by blast
  have "i_dev (icache s' ip) = i_dev (icache s1 dp)" "i_inum (icache s' ip) = ucast (de_inum de)"
    by (rule iget_post(4,5) [OF a(3)])+
  moreover have "i_dev (icache s1 dp) = i_dev (icache s dp)"
    by (rule addrs_frame_fields(1) [OF a(4)])
  ultimately show ?thesis using a(1,2) by auto
qed

subsection \<open>create, step by step\<close>

lemma create_present_eq:
  assumes "nameiparent path (\<lambda>k. 0) s = Inr ((Some dp, name), s0)"
    and "ilock dp s0 = Inr ((), s1)"
    and "dirlookup dp name s1 = Inr (Some (ip, poff), s2)"
  shows "create path ty mj mn s =
           bindk (iunlockput dp s2) (\<lambda>u s.
           bindk (ilock ip s) (\<lambda>u s.
             if ty = T_FILE \<and> i_type (icache s ip) = T_FILE then Inr (Some ip, s)
             else bindk (iunlockput ip s) (\<lambda>u s. Inr (None, s))))"
  using assms by (simp add: create_def)

lemma create_absent_eq:
  assumes "nameiparent path (\<lambda>k. 0) s = Inr ((Some dp, name), s0)"
    and "ilock dp s0 = Inr ((), s1)"
    and "dirlookup dp name s1 = Inr (None, s2)"
  shows "create path ty mj mn s =
     bindk (ialloc (i_dev (icache s2 dp)) ty s2) (\<lambda>ip s.
       bindk (ilock ip s) (\<lambda>u s.
         (let s = upd_inode ip (\<lambda>i. i\<lparr>i_major := mj, i_minor := mn, i_nlink := 1\<rparr>) s;
              s = iupdate ip s
          in bindk (if ty = T_DIR then
                      (let s = upd_inode dp (\<lambda>i. i\<lparr>i_nlink := i_nlink i + 1\<rparr>) s;
                           s = iupdate dp s
                       in bindk (dirlink ip dot (i_inum (icache s ip)) s) (\<lambda>r s.
                            if r <s 0 then panic ''create dots''
                            else bindk (dirlink ip dotdot (i_inum (icache s dp)) s) (\<lambda>r s.
                                   if r <s 0 then panic ''create dots'' else Inr ((), s))))
                    else Inr ((), s)) (\<lambda>u s.
             bindk (dirlink dp name (i_inum (icache s ip)) s) (\<lambda>r s.
               if r <s 0 then panic ''create: dirlink''
               else bindk (iunlockput dp s) (\<lambda>u s. Inr (Some ip, s)))))))"
  using assms by (simp add: create_def)

text \<open>
  When the name is there: create unlocks and releases the directory and locks the inode
  found, which keeps its identity; it returns that inode when a file is asked for and a
  file is found, and otherwise unlocks and releases it and returns null.
\<close>

lemma create_found:
  assumes np: "nameiparent path (\<lambda>k. 0) s = Inr ((Some dp, name), s0)"
    and lk: "ilock dp s0 = Inr ((), s1)"
    and dl: "dirlookup dp name s1 = Inr (Some (ip, poff), s2)"
  shows "\<exists>de. de_inum de \<noteq> 0 \<and> namecmp name (de_name de) = 0 \<and>
              i_dev (icache s2 ip) = i_dev (icache s1 dp) \<and>
              i_inum (icache s2 ip) = ucast (de_inum de)"
    and "iunlockput dp s2 = Inr ((), sx) \<Longrightarrow> ilock ip sx = Inr ((), sy) \<Longrightarrow>
         i_lock (icache sy ip) \<and> i_dev (icache sy ip) = i_dev (icache s2 ip) \<and>
         i_inum (icache sy ip) = i_inum (icache s2 ip) \<and>
         (ty = T_FILE \<and> i_type (icache sy ip) = T_FILE \<longrightarrow>
            create path ty mj mn s = Inr (Some ip, sy)) \<and>
         (\<not> (ty = T_FILE \<and> i_type (icache sy ip) = T_FILE) \<longrightarrow>
            create path ty mj mn s = bindk (iunlockput ip sy) (\<lambda>u s. Inr (None, s)))"
    and "create path ty mj mn s = Inr (r, s') \<Longrightarrow>
         \<exists>sx sy. iunlockput dp s2 = Inr ((), sx) \<and> ilock ip sx = Inr ((), sy) \<and>
           (if ty = T_FILE \<and> i_type (icache sy ip) = T_FILE then r = Some ip \<and> s' = sy
            else r = None \<and> iunlockput ip sy = Inr ((), s'))"
proof -
  note eq = create_present_eq [OF np lk dl, of ty mj mn]
  show "\<exists>de. de_inum de \<noteq> 0 \<and> namecmp name (de_name de) = 0 \<and>
              i_dev (icache s2 ip) = i_dev (icache s1 dp) \<and>
              i_inum (icache s2 ip) = ucast (de_inum de)"
    by (rule dirlookup_found [OF dl])
  show "i_lock (icache sy ip) \<and> i_dev (icache sy ip) = i_dev (icache s2 ip) \<and>
         i_inum (icache sy ip) = i_inum (icache s2 ip) \<and>
         (ty = T_FILE \<and> i_type (icache sy ip) = T_FILE \<longrightarrow>
            create path ty mj mn s = Inr (Some ip, sy)) \<and>
         (\<not> (ty = T_FILE \<and> i_type (icache sy ip) = T_FILE) \<longrightarrow>
            create path ty mj mn s = bindk (iunlockput ip sy) (\<lambda>u s. Inr (None, s)))"
    if u: "iunlockput dp s2 = Inr ((), sx)" and l: "ilock ip sx = Inr ((), sy)"
  proof -
    note ll = ilock_locked [OF l]
    have "i_dev (icache sy ip) = i_dev (icache s2 ip)" "i_inum (icache sy ip) = i_inum (icache s2 ip)"
      using ll(3,4) iunlockput_ident [OF u, of ip] by simp_all
    moreover have "ty = T_FILE \<and> i_type (icache sy ip) = T_FILE \<longrightarrow>
            create path ty mj mn s = Inr (Some ip, sy)"
      unfolding eq by (simp add: u l)
    moreover have "\<not> (ty = T_FILE \<and> i_type (icache sy ip) = T_FILE) \<longrightarrow>
            create path ty mj mn s = bindk (iunlockput ip sy) (\<lambda>u s. Inr (None, s))"
      unfolding eq by (simp add: u l)
    ultimately show ?thesis using ll(2) by blast
  qed
  show "\<exists>sx sy. iunlockput dp s2 = Inr ((), sx) \<and> ilock ip sx = Inr ((), sy) \<and>
           (if ty = T_FILE \<and> i_type (icache sy ip) = T_FILE then r = Some ip \<and> s' = sy
            else r = None \<and> iunlockput ip sy = Inr ((), s'))"
    if cr: "create path ty mj mn s = Inr (r, s')"
  proof -
    from cr [unfolded eq] obtain ua sx where
      u: "iunlockput dp s2 = Inr (ua, sx)" and
      c1: "bindk (ilock ip sx) (\<lambda>u s.
             if ty = T_FILE \<and> i_type (icache s ip) = T_FILE then Inr (Some ip, s)
             else bindk (iunlockput ip s) (\<lambda>u s. Inr (None, s))) = Inr (r, s')"
      by (rule bindk_InrE)
    from c1 obtain ub sy where
      l: "ilock ip sx = Inr (ub, sy)" and
      c2: "(if ty = T_FILE \<and> i_type (icache sy ip) = T_FILE then Inr (Some ip, sy)
             else bindk (iunlockput ip sy) (\<lambda>u s. Inr (None, s))) = Inr (r, s')"
      by (rule bindk_InrE)
    have "if ty = T_FILE \<and> i_type (icache sy ip) = T_FILE then r = Some ip \<and> s' = sy
            else r = None \<and> iunlockput ip sy = Inr ((), s')"
      using c2 by (auto simp: bindk_eq_Inr split: if_splits)
    with u l show ?thesis by auto
  qed
qed

lemma sys_open_create_fail:
  assumes "omode AND O_CREATE \<noteq> 0"
  shows "create path T_FILE 0 0 (begin_op s) = Inl e \<Longrightarrow> sys_open path omode s = Inl e"
    and "create path T_FILE 0 0 (begin_op s) = Inr (None, s1) \<Longrightarrow>
         sys_open path omode s = Inr (- 1, end_op s1)"
  using assms by (simp_all add: sys_open_def Let_def)

lemma sys_open_create_ok:
  assumes "omode AND O_CREATE \<noteq> 0"
    and "create path T_FILE 0 0 (begin_op s) = Inr (Some ip, s1)"
    and "sys_open path omode s = Inr (fd, s')" and "\<not> fd <s 0"
  shows "\<exists>f. ofile s' (unat fd) = Some f \<and> f_type (ftable s' f) = FD_INODE \<and>
             f_ip (ftable s' f) = ip \<and> f_off (ftable s' f) = 0"
proof -
  from assms(1,2,3) have so:
    "(case filealloc s1 of
        (None, s) \<Rightarrow> bindk (iunlockput ip s) (\<lambda>_ s. Inr (- 1, end_op s))
      | (Some f, s) \<Rightarrow>
          (case fdalloc f s of
             (fd, s) \<Rightarrow>
               if fd <s 0 then
                 bindk (fileclose f s) (\<lambda>_ s.
                 bindk (iunlockput ip s) (\<lambda>_ s. Inr (- 1, end_op s)))
               else
                 bindk (iunlock ip s) (\<lambda>_ s.
                   (let s = end_op s;
                        s = upd_file f (\<lambda>x. x\<lparr>f_type := FD_INODE, f_ip := ip, f_off := 0,
                               f_readable := (if omode AND O_WRONLY \<noteq> 0 then 0 else 1),
                               f_writable := (if omode AND O_WRONLY \<noteq> 0
                                                \<or> omode AND O_RDWR \<noteq> 0 then 1 else 0)\<rparr>) s
                    in Inr (fd, s))))) = Inr (fd, s')"
    by (simp add: sys_open_def Let_def)
  have m1: "\<not> (- 1 :: cint) <s 0 \<Longrightarrow> False" by (simp add: word_sless_alt)
  obtain fo s2 where fa: "filealloc s1 = (fo, s2)" by (cases "filealloc s1")
  show ?thesis
  proof (cases fo)
    case None
    with so fa have "fd = - 1" by (auto simp: bindk_eq_Inr)
    with assms(4) m1 show ?thesis by simp
  next
    case (Some f)
    obtain fd' s3 where fdl: "fdalloc f s2 = (fd', s3)" by (cases "fdalloc f s2")
    show ?thesis
    proof (cases "fd' <s 0")
      case True
      with so fa Some fdl have "fd = - 1" by (auto simp: bindk_eq_Inr)
      with assms(4) m1 show ?thesis by simp
    next
      case False
      with so fa Some fdl obtain s4 where
        u: "iunlock ip s3 = Inr ((), s4)" and fe: "fd = fd'" and
        e: "s' = upd_file f (\<lambda>x. x\<lparr>f_type := FD_INODE, f_ip := ip, f_off := 0,
                               f_readable := (if omode AND O_WRONLY \<noteq> 0 then 0 else 1),
                               f_writable := (if omode AND O_WRONLY \<noteq> 0
                                                \<or> omode AND O_RDWR \<noteq> 0 then 1 else 0)\<rparr>)
                  (end_op s4)"
        by (auto simp: bindk_eq_Inr Let_def)
      from fdl False obtain k where
        sc: "fdalloc_scan 0 s2 = Some k" and fk: "fd' = word_of_nat k" and
        e3: "s3 = s2\<lparr>ofile := (ofile s2)(k := Some f)\<rparr>"
        by (auto simp: fdalloc_def word_sless_alt split: option.splits)
      from fdalloc_scan_bound [OF sc] have "k < 16" by (simp add: NOFILE_def)
      then have uk: "unat fd = k" by (simp add: fe fk unat_of_nat)
      have "ofile s4 = ofile s3"
        using iunlock_frame [OF u] by (simp add: slot_frame_def fs_frame_def)
      then have "ofile s' (unat fd) = Some f"
        by (simp add: e end_op_def uk e3)
      moreover have "f_type (ftable s' f) = FD_INODE \<and> f_ip (ftable s' f) = ip \<and>
          f_off (ftable s' f) = 0"
        by (simp add: e)
      ultimately show ?thesis by blast
    qed
  qed
qed

text \<open>
  An example: device 1 holds the root directory (inode 1, block 101) with the entries
  \<open>.\<close>, \<open>..\<close>, one not in use, and \<open>f\<close> for inode 2, a file of five bytes with two
  links. Both inodes are cached, slot 3 and slot 2, and the directory is the current
  directory.
\<close>

definition tree_state :: kstate where
  "tree_state = kstate0
     \<lparr>disk := (\<lambda>d b.
         if d = 1 \<and> b = 32
         then (\<lambda>k. if k = 64 then 1 else if k = 70 then 1 else if k = 72 then 64
                   else if k = 76 then 101 else if k = 128 then 2 else if k = 134 then 2
                   else if k = 136 then 5 else if k = 140 then 100 else 0)
         else if d = 1 \<and> b = 58 then (\<lambda>k. if k = 12 then 48 else 0)
         else if d = 1 \<and> b = 100 then mem_of [104, 101, 108, 108, 111]
         else if d = 1 \<and> b = 101
         then (\<lambda>k. if k = 0 then 1 else if k = 2 then 46
                   else if k = 16 then 1 else if k = 18 then 46 else if k = 19 then 46
                   else if k = 48 then 2 else if k = 50 then 102 else 0)
         else (\<lambda>k. 0)),
      icache := (\<lambda>k.
         if k = 2
         then inode0\<lparr>i_dev := 1, i_inum := 2, i_ref := 1, i_valid := 1, i_type := T_FILE,
                i_nlink := 2, i_size := 5, i_addrs := (\<lambda>j. if j = 0 then 100 else 0)\<rparr>
         else if k = 3
         then inode0\<lparr>i_dev := 1, i_inum := 1, i_ref := 1, i_valid := 1, i_type := T_DIR,
                i_nlink := 1, i_size := 64, i_addrs := (\<lambda>j. if j = 0 then 101 else 0)\<rparr>
         else inode0),
      cwd := 3\<rparr>"

lemma tree_parent:
  "nameiparent [102] (\<lambda>k. 0) (begin_op tree_state) =
     Inr ((Some 3, mem_of [102]), upd_inode 3 (\<lambda>i. i\<lparr>i_ref := 2\<rparr>) (begin_op tree_state))"
  apply (simp add: nameiparent_def namex_def namex_loop.simps skipelem_def skip_slashes.simps
      skip_name.simps deref_def slash_def idup_def ilock_def acquiresleep_def iunlock_def
      holdingsleep_def releasesleep_def tree_state_def kstate0_def inode0_def begin_op_def
      upd_inode_def T_DIR_def T_FILE_def DIRSIZ_def Let_def memmove_def mem_of_def
      fun_eq_iff)
  done


lemmas tree_defs =
  nameiparent_def namex_def namex_loop.simps skipelem_def skip_slashes.simps
  skip_name.simps deref_def slash_def idup_def ilock_def acquiresleep_def iunlock_def
  holdingsleep_def releasesleep_def tree_state_def kstate0_def inode0_def begin_op_def
  upd_inode_def T_DIR_def T_FILE_def T_DEV_def DIRSIZ_def Let_def memmove_def mem_of_def
  dirlookup_def dirlookup_loop.simps readi_def readi_loop.simps bmap_def bread_def
  de_inum_def de_name_def get16_def namecmp_def strncmp_numeral iget_def iget_scan.simps
  iunlockput_def iput_def NDIRECT_def BSIZE_def sizeof_dirent_def NINODE_def
  word_sless_alt upt_rec

lemma tree_lock:
  "ilock 3 (upd_inode 3 (\<lambda>i. i\<lparr>i_ref := 2\<rparr>) (begin_op tree_state)) =
     Inr ((), upd_inode 3 (\<lambda>i. i\<lparr>i_ref := 2, i_lock := True\<rparr>) (begin_op tree_state))"
  by (simp add: tree_defs fun_eq_iff)

lemma tree_lookup_f:
  "dirlookup 3 (mem_of [102])
     (upd_inode 3 (\<lambda>i. i\<lparr>i_ref := 2, i_lock := True\<rparr>) (begin_op tree_state)) =
   Inr (Some (2, 48), upd_inode 2 (\<lambda>i. i\<lparr>i_ref := 2\<rparr>)
     (upd_inode 3 (\<lambda>i. i\<lparr>i_ref := 2, i_lock := True\<rparr>) (begin_op tree_state)))"
  by (simp add: tree_defs fun_eq_iff)

lemma tree_lookup_a:
  "dirlookup 3 (mem_of [97])
     (upd_inode 3 (\<lambda>i. i\<lparr>i_ref := 2, i_lock := True\<rparr>) (begin_op tree_state)) =
   Inr (None, upd_inode 3 (\<lambda>i. i\<lparr>i_ref := 2, i_lock := True\<rparr>) (begin_op tree_state))"
  by (simp add: tree_defs fun_eq_iff)


lemma strncpy_numeral:
  "strncpy t (numeral n) =
     (if t 0 = 0 then replicate (numeral n) 0 else t 0 # strncpy (\<lambda>k. t (Suc k)) (pred_numeral n))"
  by (simp add: numeral_eq_Suc)

lemma tree_create_f:
  "create [102] T_FILE 0 0 (begin_op tree_state) =
     Inr (Some 2, upd_inode 2 (\<lambda>i. i\<lparr>i_ref := 2, i_lock := True\<rparr>) (begin_op tree_state))"
  by (simp add: create_def tree_defs fun_eq_iff)

lemma tree_create_a:
  "\<exists>s'. create [97] T_FILE 0 0 (begin_op tree_state) = Inr (Some 0, s')"
  by (simp add: create_def tree_defs ialloc_def ialloc_from.simps IBLOCK_def IPB_def
      sizeof_dinode_def memset_def log_write_def iupdate_def get_dinode_def dirlink_def
      dirlink_scan.simps writei_def writei_loop.simps MAXFILE_def NINDIRECT_def put16_def
      get32_def put32_def)


lemma tree_parent_a:
  "nameiparent [97] (\<lambda>k. 0) (begin_op tree_state) =
     Inr ((Some 3, mem_of [97]), upd_inode 3 (\<lambda>i. i\<lparr>i_ref := 2\<rparr>) (begin_op tree_state))"
  by (simp add: tree_defs fun_eq_iff)

lemma tree_create_none:
  "\<exists>s'. create [] T_FILE 0 0 (begin_op tree_state) = Inr (None, s')"
  by (simp add: create_def tree_defs)

text \<open>The state after create has found \<open>f\<close>: inode 2 has one more reference and is locked.\<close>

definition tree_opened :: kstate where
  "tree_opened = upd_inode 2 (\<lambda>i. i\<lparr>i_ref := 2, i_lock := True\<rparr>) (begin_op tree_state)"


text \<open>
  On a directory of whole entries whose blocks are there, dirlookup returns null when no
  entry in use has this name, and otherwise iget of the inode that the first such entry
  names, with the offset of that entry.
\<close>

lemma dirlookup_wf:
  assumes "wf_dir s dp"
  shows "dirlookup dp name s =
           (case lookup_from name (dirents s dp) 0 of
              None \<Rightarrow> Inr (None, s)
            | Some (j, de) \<Rightarrow>
                bindk (iget (i_dev (icache s dp)) (ucast (de_inum de)) s) (\<lambda>ip s.
                  Inr (Some (ip, word_of_nat (j * sizeof_dirent)), s)))"
    and "lookup_from name (dirents s dp) 0 = None \<longleftrightarrow> \<not> present s dp name"
proof -
  have ty: "i_type (icache s dp) = T_DIR"
    using assms by (simp add: wf_dir_def)
  show "dirlookup dp name s =
           (case lookup_from name (dirents s dp) 0 of
              None \<Rightarrow> Inr (None, s)
            | Some (j, de) \<Rightarrow>
                bindk (iget (i_dev (icache s dp)) (ucast (de_inum de)) s) (\<lambda>ip s.
                  Inr (Some (ip, word_of_nat (j * sizeof_dirent)), s)))"
    using dirlookup_loop_entries [OF assms, of 0 name] by (simp add: dirlookup_def ty)
  show "lookup_from name (dirents s dp) 0 = None \<longleftrightarrow> \<not> present s dp name"
    by (simp add: lookup_from_None present_def)
qed

lemma tree_wf:
  "wf_dir (upd_inode 3 (\<lambda>i. i\<lparr>i_ref := 2, i_lock := True\<rparr>) (begin_op tree_state)) 3"
  by (simp add: wf_dir_def tree_state_def kstate0_def inode0_def begin_op_def upd_inode_def
      sizeof_dirent_def DIRSIZ_def BSIZE_def mapped_def bmap_ro_def MAXFILE_def NDIRECT_def
      NINDIRECT_def T_DIR_def)

lemma dirlookup_entry:
  assumes "wf_dir s dp"
  shows "dirlookup dp name s = Inr (None, s') \<Longrightarrow> \<not> present s dp name \<and> s' = s"
    and "dirlookup dp name s = Inr (Some (ip, poff), s') \<Longrightarrow>
         present s dp name \<and>
         (\<exists>j de. lookup_from name (dirents s dp) 0 = Some (j, de) \<and>
            poff = word_of_nat (j * sizeof_dirent) \<and>
            iget (i_dev (icache s dp)) (ucast (de_inum de)) s = Inr (ip, s'))"
proof -
  note w = dirlookup_wf [OF assms, of name]
  {
    assume d: "dirlookup dp name s = Inr (None, s')"
    show "\<not> present s dp name \<and> s' = s"
    proof (cases "lookup_from name (dirents s dp) 0")
      case None
      with w d show ?thesis by simp
    next
      case (Some p)
      obtain j de where p: "p = (j, de)" by (cases p)
      from w(1) d Some p have
        "bindk (iget (i_dev (icache s dp)) (ucast (de_inum de)) s) (\<lambda>ip s.
           Inr (Some (ip, word_of_nat (j * sizeof_dirent) :: uint), s)) = Inr (None, s')"
        by (simp del: of_nat_mult)
      then show ?thesis by (auto simp: bindk_eq_Inr)
    qed
  }
  {
    assume d: "dirlookup dp name s = Inr (Some (ip, poff), s')"
    show "present s dp name \<and>
         (\<exists>j de. lookup_from name (dirents s dp) 0 = Some (j, de) \<and>
            poff = word_of_nat (j * sizeof_dirent) \<and>
            iget (i_dev (icache s dp)) (ucast (de_inum de)) s = Inr (ip, s'))"
    proof (cases "lookup_from name (dirents s dp) 0")
      case None
      with w d show ?thesis by simp
    next
      case (Some p)
      obtain j de where p: "p = (j, de)" by (cases p)
      from w(2) Some have "present s dp name" by simp
      moreover from w(1) d Some p have
        "bindk (iget (i_dev (icache s dp)) (ucast (de_inum de)) s) (\<lambda>ip s.
           Inr (Some (ip, word_of_nat (j * sizeof_dirent) :: uint), s)) =
         Inr (Some (ip, poff), s')"
        by (simp del: of_nat_mult)
      then have
        "poff = word_of_nat (j * sizeof_dirent) \<and>
         iget (i_dev (icache s dp)) (ucast (de_inum de)) s = Inr (ip, s')"
        by (auto simp: bindk_eq_Inr simp del: of_nat_mult)
      ultimately show ?thesis using Some p by blast
    qed
  }
qed

lemma tree_release_f:
  "iunlockput 3 (upd_inode 2 (\<lambda>i. i\<lparr>i_ref := 2\<rparr>)
     (upd_inode 3 (\<lambda>i. i\<lparr>i_ref := 2, i_lock := True\<rparr>) (begin_op tree_state))) =
   Inr ((), upd_inode 2 (\<lambda>i. i\<lparr>i_ref := 2\<rparr>) (begin_op tree_state))"
  by (simp add: tree_defs fun_eq_iff)

lemma tree_lock_f:
  "ilock 2 (upd_inode 2 (\<lambda>i. i\<lparr>i_ref := 2\<rparr>) (begin_op tree_state)) = Inr ((), tree_opened)"
  by (simp add: tree_defs tree_opened_def fun_eq_iff)



end
